theory Spec2Isabelle
  imports
    Main
    "HOL-Library.Multiset"
    "HOL-Library.List_Lexorder"
    "HOL-Library.Char_ord"
begin

section \<open>Domain models (core.py)\<close>

text \<open>
  A \<open>pathlib.Path\<close> is represented by its \<open>parts\<close>:
  \<open>Path("/a/b").parts = ("/", "a", "b")\<close>. Paths are ordered lexicographically on their
  parts, each part by code points, which is Python's order on absolute paths.
\<close>

type_synonym Path = "string list"

definition path_name :: "Path \<Rightarrow> string" where
  \<comment> \<open>\<open>Path.name\<close>: the final component, empty for the empty path and for a bare root.\<close>
  "path_name p =
     (if p = [] then []
      else if length p = 1 \<and> (hd p = ''/'' \<or> hd p = ''//'') then []
      else last p)"

datatype SyncStatus =
  CLEAN | AHEAD | BEHIND | DIVERGED | NO_UPSTREAM | DETACHED | NO_REMOTE | ERROR

datatype WorkingTreeStatus = TREE_CLEAN | TREE_DIRTY

datatype PullMode = SMART | SAFE | FORCE

text \<open>
  \<open>GitRepository\<close>, \<open>RepositoryStatus\<close> and \<open>OperationResult\<close> all carry the attributes
  \<open>path\<close> and \<open>name\<close>; the engine reads \<open>r.path\<close> from whatever record an operation
  returns. The common part is the record \<open>GitRepository\<close>, which the two result records
  extend. A \<open>GitRepository\<close> holds nothing else: its \<open>name\<close> is \<open>path.name\<close> and its
  \<open>ops\<close> is \<open>GitOperations(path)\<close>.
\<close>

record GitRepository =
  path :: Path
  name :: string

definition GitRepository_init :: "Path \<Rightarrow> GitRepository" where
  \<comment> \<open>\<open>GitRepository.__init__\<close>\<close>
  "GitRepository_init p = \<lparr>path = p, name = path_name p\<rparr>"

record RepositoryStatus = GitRepository +
  branch :: string
  remote_branch :: string
  sync_status :: SyncStatus
  ahead_count :: int
  behind_count :: int
  staged_count :: int
  unstaged_count :: int
  untracked_count :: int
  last_commit_date :: "string option"
  error_message :: string

record OperationResult = GitRepository +
  success :: bool
  operation :: string
  message :: string
  error :: string

definition working_tree_status :: "RepositoryStatus \<Rightarrow> WorkingTreeStatus" where
  "working_tree_status s =
     (if staged_count s > 0 \<or> unstaged_count s > 0 \<or> untracked_count s > 0
      then TREE_DIRTY else TREE_CLEAN)"

definition needs_push :: "RepositoryStatus \<Rightarrow> bool" where
  "needs_push s = (sync_status s \<in> {AHEAD, DIVERGED})"

definition needs_pull :: "RepositoryStatus \<Rightarrow> bool" where
  "needs_pull s = (sync_status s \<in> {BEHIND, DIVERGED})"

definition is_diverged :: "RepositoryStatus \<Rightarrow> bool" where
  "is_diverged s = (sync_status s = DIVERGED)"

definition has_conflict_risk :: "RepositoryStatus \<Rightarrow> bool" where
  "has_conflict_risk s =
     (if is_diverged s then True
      else if needs_pull s \<and> working_tree_status s = TREE_DIRTY then True
      else False)"


section \<open>Python string primitives\<close>

text \<open>
  The characters for which \<open>str.isspace()\<close> holds, among the first 256 code points.
\<close>

definition py_isspace :: "char \<Rightarrow> bool" where
  "py_isspace c = (c \<in> set [CHR 0x09, CHR 0x0A, CHR 0x0B, CHR 0x0C, CHR 0x0D,
                              CHR 0x1C, CHR 0x1D, CHR 0x1E, CHR 0x1F, CHR 0x20,
                              CHR 0x85, CHR 0xA0])"

definition startswith :: "string \<Rightarrow> string \<Rightarrow> bool" where
  "startswith s p = (take (length p) s = p)"

definition strip :: "string \<Rightarrow> string" where
  "strip s = rev (dropWhile py_isspace (rev (dropWhile py_isspace s)))"

text \<open>\<open>str.split()\<close> without arguments: the maximal runs of non-whitespace characters.\<close>

function split_ws :: "string \<Rightarrow> string list" where
  "split_ws s =
     (case dropWhile py_isspace s of
        [] \<Rightarrow> []
      | c # cs \<Rightarrow> takeWhile (\<lambda>x. \<not> py_isspace x) (c # cs)
                  # split_ws (dropWhile (\<lambda>x. \<not> py_isspace x) (c # cs)))"
  by pat_completeness auto
termination
proof (relation "measure length", goal_cases)
  case 1
  show ?case by simp
next
  case (2 s c cs)
  have eq: "dropWhile py_isspace s = c # cs" using 2 by simp
  have "\<not> py_isspace c"
    using hd_dropWhile [of py_isspace s] eq by simp
  then have "length (dropWhile (\<lambda>x. \<not> py_isspace x) (c # cs)) \<le> length cs"
    using length_dropWhile_le [of "\<lambda>x. \<not> py_isspace x" cs] by simp
  moreover have "length (c # cs) \<le> length s"
    using length_dropWhile_le [of py_isspace s] eq by simp
  ultimately show ?case by simp
qed

declare split_ws.simps [simp del]

definition is_digit :: "char \<Rightarrow> bool" where
  "is_digit c = (c \<in> set ''0123456789'')"

definition digit_value :: "char \<Rightarrow> nat" where
  "digit_value c = of_char c - 48"

fun digits_value :: "nat \<Rightarrow> string \<Rightarrow> nat option" where
  "digits_value acc [] = Some acc"
| "digits_value acc [c] = (if is_digit c then Some (10 * acc + digit_value c) else None)"
| "digits_value acc (c # d # cs) =
     (if is_digit c then digits_value (10 * acc + digit_value c) (d # cs)
      else if c = CHR ''_'' \<and> is_digit d then digits_value acc (d # cs)
      else None)"

definition unsigned_int :: "string \<Rightarrow> int option" where
  "unsigned_int t =
     (case t of [] \<Rightarrow> None
      | c # cs \<Rightarrow> if is_digit c then map_option int (digits_value 0 t) else None)"

definition py_int :: "string \<Rightarrow> int option" where
  \<comment> \<open>\<open>int(s)\<close> for a string: \<open>None\<close> is \<open>ValueError\<close>. Surrounding whitespace, one sign,
      decimal digits, single underscores between digits.\<close>
  "py_int s =
     (case strip s of [] \<Rightarrow> None
      | c # cs \<Rightarrow>
          if c = CHR ''+'' then unsigned_int cs
          else if c = CHR ''-'' then map_option uminus (unsigned_int cs)
          else unsigned_int (c # cs))"

datatype py_error = ValueError | IndexError

section \<open>The adapter: GitOperations\<close>

text \<open>
  Every method of \<open>GitOperations\<close> is one or two \<open>git\<close> subprocesses whose failures it
  turns into values. What the subprocesses answer for the repository at a path is the
  environment \<open>git_env\<close>; every access to it is recorded as an event, so that a run of a
  fleet operation yields its result together with the adapter calls it made and the worker
  pools it created.
\<close>

record git_env =
  fetch_all_out :: "Path \<Rightarrow> bool \<times> string"
  status_out :: "Path \<Rightarrow> (int \<times> string list) option"
  has_remotes_out :: "Path \<Rightarrow> bool"
  last_commit_date_out :: "Path \<Rightarrow> string option"
  merge_base_out :: "Path \<Rightarrow> string option"
  changed_files_out :: "Path \<Rightarrow> string \<Rightarrow> string \<Rightarrow> string set"
  dirty_files_out :: "Path \<Rightarrow> string set"
  pull_out :: "Path \<Rightarrow> bool \<times> string"
  push_out :: "Path \<Rightarrow> bool \<times> string"

text \<open>
  \<^item> \<open>fetch_all_out\<close>, \<open>has_remotes_out\<close>, \<open>last_commit_date_out\<close>, \<open>merge_base_out\<close>,
    \<open>changed_files_out\<close>, \<open>dirty_files_out\<close>, \<open>pull_out\<close>, \<open>push_out\<close>: what
    \<open>fetch_all()\<close>, \<open>has_remotes()\<close>, \<open>get_last_commit_date()\<close>, \<open>get_merge_base()\<close>,
    \<open>get_changed_files_between(ref1, ref2)\<close>, \<open>get_dirty_files()\<close>, \<open>pull()\<close> and
    \<open>push()\<close> of \<open>GitOperations\<close> return;
  \<^item> \<open>status_out\<close>: the return code and \<open>stdout.splitlines()\<close> of
    \<open>git status --porcelain=v2 --branch\<close>, or \<open>None\<close> when \<open>subprocess.run\<close> raises.
\<close>

datatype adapter_call =
  Fetch_all | Status_porcelain | Has_remotes | Last_commit_date | Merge_base
  | Changed_files_between string string | Dirty_files | Pull | Push

datatype event =
  Call Path adapter_call
  | Pool int  \<comment> \<open>\<open>ThreadPoolExecutor(max_workers=n)\<close> was entered\<close>

subsection \<open>get_status_porcelain\<close>

record StatusInfo =
  info_branch :: string
  info_remote_branch :: string
  info_ahead :: int
  info_behind :: int
  info_staged_count :: int
  info_unstaged_count :: int
  info_untracked_count :: int

definition info_init :: StatusInfo where
  "info_init = \<lparr>info_branch = [], info_remote_branch = [], info_ahead = 0,
     info_behind = 0, info_staged_count = 0, info_unstaged_count = 0,
     info_untracked_count = 0\<rparr>"

text \<open>
  The body of the loop over the lines. An exception leaves the loop with the dictionary as
  it is at that moment: \<open>Inl\<close> carries it. \<open>int()\<close> raises \<open>ValueError\<close>, indexing the
  slice \<open>line[2:4]\<close> beyond its length raises \<open>IndexError\<close>.
\<close>

definition porcelain_line :: "StatusInfo \<Rightarrow> string \<Rightarrow> (py_error \<times> StatusInfo) + StatusInfo" where
  "porcelain_line info line =
     (if startswith line ''# branch.head '' then
        Inr (info\<lparr>info_branch := drop (length ''# branch.head '') line\<rparr>)
      else if startswith line ''# branch.upstream '' then
        Inr (info\<lparr>info_remote_branch := drop (length ''# branch.upstream '') line\<rparr>)
      else if startswith line ''# branch.ab '' then
        (let parts = split_ws line in
         if length parts = 3 then
           (case py_int (parts ! 1) of
              None \<Rightarrow> Inl (ValueError, info)
            | Some a \<Rightarrow>
                (let info1 = info\<lparr>info_ahead := \<bar>a\<bar>\<rparr> in
                 case py_int (parts ! 2) of
                   None \<Rightarrow> Inl (ValueError, info1)
                 | Some b \<Rightarrow> Inr (info1\<lparr>info_behind := \<bar>b\<bar>\<rparr>)))
         else Inr info)
      else if startswith line ''1 '' \<or> startswith line ''2 '' then
        (let xy = take 2 (drop 2 line) in
         if length xy < 1 then Inl (IndexError, info)
         else
           (let info1 = (if xy ! 0 \<noteq> CHR ''.''
                         then info\<lparr>info_staged_count := info_staged_count info + 1\<rparr>
                         else info) in
            if length xy < 2 then Inl (IndexError, info1)
            else Inr (if xy ! 1 \<noteq> CHR ''.''
                      then info1\<lparr>info_unstaged_count := info_unstaged_count info1 + 1\<rparr>
                      else info1)))
      else if startswith line ''u '' then
        Inr (info\<lparr>info_staged_count := info_staged_count info + 1,
                  info_unstaged_count := info_unstaged_count info + 1\<rparr>)
      else if startswith line ''? '' then
        Inr (info\<lparr>info_untracked_count := info_untracked_count info + 1\<rparr>)
      else Inr info)"

fun porcelain_lines :: "StatusInfo \<Rightarrow> string list \<Rightarrow> (py_error \<times> StatusInfo) + StatusInfo" where
  "porcelain_lines info [] = Inr info"
| "porcelain_lines info (line # rest) =
     (case porcelain_line info line of
        Inl e \<Rightarrow> Inl e
      | Inr info' \<Rightarrow> porcelain_lines info' rest)"

definition get_status_porcelain :: "git_env \<Rightarrow> Path \<Rightarrow> StatusInfo" where
  "get_status_porcelain env p =
     (case status_out env p of
        None \<Rightarrow> info_init
      | Some (returncode, lines) \<Rightarrow>
          if returncode \<noteq> 0 then info_init
          else (case porcelain_lines info_init lines of
                  Inl (e, info) \<Rightarrow> info
                | Inr info \<Rightarrow> info))"

subsection \<open>has_file_conflicts\<close>

definition upstream_ref :: string where
  \<comment> \<open>the revision the source writes as at-sign, brace, u, brace\<close>
  "upstream_ref = CHR 0x40 # ''{u}''"

definition has_file_conflicts :: "git_env \<Rightarrow> GitRepository \<Rightarrow> bool \<times> event list" where
  "has_file_conflicts env repo =
     (let p = path repo in
      case merge_base_out env p of
        None \<Rightarrow> (True, [Call p Merge_base])
      | Some merge_base \<Rightarrow>
          (let remote_files = changed_files_out env p merge_base upstream_ref;
               local_files = changed_files_out env p merge_base ''HEAD'';
               local_files = local_files \<union> dirty_files_out env p
           in (local_files \<inter> remote_files \<noteq> {},
               [Call p Merge_base,
                Call p (Changed_files_between merge_base upstream_ref),
                Call p (Changed_files_between merge_base ''HEAD''),
                Call p Dirty_files])))"

section \<open>GitRepository\<close>

definition status_init :: "GitRepository \<Rightarrow> RepositoryStatus" where
  \<comment> \<open>\<open>RepositoryStatus(path=self.path, name=self.name)\<close> with the dataclass defaults\<close>
  "status_init repo =
     \<lparr>path = path repo, name = name repo, branch = [], remote_branch = [],
      sync_status = CLEAN, ahead_count = 0, behind_count = 0, staged_count = 0,
      unstaged_count = 0, untracked_count = 0, last_commit_date = None,
      error_message = []\<rparr>"

definition classify :: "git_env \<Rightarrow> RepositoryStatus \<Rightarrow> SyncStatus \<times> event list" where
  \<comment> \<open>the \<open>if\<close>/\<open>elif\<close> chain of \<open>get_status\<close>; \<open>has_remotes()\<close> is called only when the
      chain reaches it\<close>
  "classify env status =
     (if remote_branch status \<noteq> [] then
        (if ahead_count status > 0 \<and> behind_count status > 0 then (DIVERGED, [])
         else if ahead_count status > 0 then (AHEAD, [])
         else if behind_count status > 0 then (BEHIND, [])
         else (CLEAN, []))
      else if branch status = ''(detached)'' then (DETACHED, [])
      else if has_remotes_out env (path status)
        then (NO_UPSTREAM, [Call (path status) Has_remotes])
        else (NO_REMOTE, [Call (path status) Has_remotes]))"

definition get_status :: "git_env \<Rightarrow> bool \<Rightarrow> GitRepository \<Rightarrow> RepositoryStatus \<times> event list" where
  \<comment> \<open>No adapter method raises, so the \<open>except\<close> clause of the source is not reached.\<close>
  "get_status env fetch_first repo =
     (let status = status_init repo; p = path repo in
      if fetch_first \<and> \<not> fst (fetch_all_out env p) then
        (status\<lparr>sync_status := ERROR,
                error_message := ''Fetch failed: '' @ snd (fetch_all_out env p)\<rparr>,
         [Call p Fetch_all])
      else
        (let info = get_status_porcelain env p;
             status = status\<lparr>branch := info_branch info,
                             remote_branch := info_remote_branch info,
                             ahead_count := info_ahead info,
                             behind_count := info_behind info,
                             staged_count := info_staged_count info,
                             unstaged_count := info_unstaged_count info,
                             untracked_count := info_untracked_count info\<rparr>;
             (sync, calls) = classify env status
         in (status\<lparr>sync_status := sync,
                     last_commit_date := last_commit_date_out env p\<rparr>,
             (if fetch_first then [Call p Fetch_all] else [])
             @ [Call p Status_porcelain] @ calls @ [Call p Last_commit_date])))"

definition fetch :: "git_env \<Rightarrow> GitRepository \<Rightarrow> OperationResult \<times> event list" where
  "fetch env repo =
     (let (ok, msg) = fetch_all_out env (path repo) in
      (\<lparr>path = path repo, name = name repo, success = ok, operation = ''fetch'',
        message = (if ok then ''Fetched successfully'' else []),
        error = (if \<not> ok then msg else [])\<rparr>,
       [Call (path repo) Fetch_all]))"

definition pull :: "git_env \<Rightarrow> GitRepository \<Rightarrow> OperationResult \<times> event list" where
  "pull env repo =
     (let (ok, msg) = pull_out env (path repo) in
      (\<lparr>path = path repo, name = name repo, success = ok, operation = ''pull'',
        message = (if ok then msg else []),
        error = (if \<not> ok then msg else [])\<rparr>,
       [Call (path repo) Pull]))"

definition push :: "git_env \<Rightarrow> GitRepository \<Rightarrow> OperationResult \<times> event list" where
  "push env repo =
     (let (ok, msg) = push_out env (path repo) in
      (\<lparr>path = path repo, name = name repo, success = ok, operation = ''push'',
        message = (if ok then msg else []),
        error = (if \<not> ok then msg else [])\<rparr>,
       [Call (path repo) Push]))"

section \<open>FleetManager\<close>

text \<open>
  The manager is modelled after discovery: \<open>repositories\<close> is the list memoised in
  \<open>self._repositories\<close>, which \<open>discover_repositories()\<close> returns on every later call.
\<close>

record FleetManager =
  max_workers :: int
  repositories :: "GitRepository list"

definition discover_repositories :: "FleetManager \<Rightarrow> GitRepository list" where
  "discover_repositories self = repositories self"

text \<open>
  The order in which \<open>as_completed\<close> yields the futures of a pool is decided by the
  thread scheduler. In the model it is a parameter: for a pool of \<open>n\<close> futures, numbered in
  submission order, \<open>done n\<close> lists them in completion order. \<open>as_completed\<close> yields every
  future once, which is \<open>completes_each_once\<close>.
\<close>

type_synonym completion = "nat \<Rightarrow> nat list"

definition completes_each_once :: "completion \<Rightarrow> bool" where
  "completes_each_once done = (\<forall>n. mset (done n) = mset [0..<n])"

record schedule =
  status_done :: completion
  check_done :: completion
  exec_done :: completion

text \<open>
  \<open>_execute_parallel\<close>, with \<open>op\<close> for its parameter \<open>operation\<close>. Every result
  is a record with a \<open>path\<close>, which is the sort key; \<open>list.sort\<close> is stable, as
  \<open>sort_key\<close> is. The events of the operations are listed task by task, in completion
  order. \<open>ThreadPoolExecutor\<close> raises \<open>ValueError\<close> for a width below one.
\<close>

definition execute_parallel ::
  "FleetManager \<Rightarrow> completion \<Rightarrow> (GitRepository \<Rightarrow> 'r GitRepository_scheme \<times> event list)
   \<Rightarrow> GitRepository list option \<Rightarrow> bool
   \<Rightarrow> py_error + ('r GitRepository_scheme list \<times> event list)" where
  "execute_parallel self done op repos sequential =
     (let repos = (case repos of None \<Rightarrow> discover_repositories self | Some rs \<Rightarrow> rs) in
      if sequential \<or> length repos \<le> 1 then
        Inr (sort_key path (map (\<lambda>repo. fst (op repo)) repos),
             concat (map (\<lambda>repo. snd (op repo)) repos))
      else if max_workers self \<le> 0 then Inl ValueError
      else
        (let finished = map (\<lambda>i. repos ! i) (done (length repos)) in
         Inr (sort_key path (map (\<lambda>repo. fst (op repo)) finished),
              Pool (max_workers self)
              # concat (map (\<lambda>repo. snd (op repo)) finished))))"

definition get_all_status ::
  "git_env \<Rightarrow> FleetManager \<Rightarrow> completion \<Rightarrow> bool \<Rightarrow> bool
   \<Rightarrow> py_error + (RepositoryStatus list \<times> event list)" where
  "get_all_status env self done fetch_first sequential =
     execute_parallel self done (get_status env fetch_first) None sequential"

definition fetch_all ::
  "git_env \<Rightarrow> FleetManager \<Rightarrow> completion \<Rightarrow> bool
   \<Rightarrow> py_error + (OperationResult list \<times> event list)" where
  "fetch_all env self done sequential =
     execute_parallel self done (fetch env) None sequential"

subsection \<open>pull_all\<close>

text \<open>The loop of the smart mode that fills \<open>safe\<close> and \<open>needs_check\<close>.\<close>

fun smart_partition ::
  "(GitRepository \<times> RepositoryStatus) list \<Rightarrow> GitRepository list \<Rightarrow> GitRepository list
   \<Rightarrow> GitRepository list \<times> GitRepository list" where
  "smart_partition [] safe needs_check = (safe, needs_check)"
| "smart_partition ((repo, status) # rest) safe needs_check =
     (if \<not> needs_pull status then smart_partition rest safe needs_check
      else if \<not> has_conflict_risk status then smart_partition rest (safe @ [repo]) needs_check
      else smart_partition rest safe (needs_check @ [repo]))"

text \<open>
  \<open>statuses_or_scan\<close> is \<open>if statuses is None: statuses = self.get_all_status(...)\<close>.
\<close>

definition statuses_or_scan ::
  "git_env \<Rightarrow> FleetManager \<Rightarrow> completion \<Rightarrow> bool \<Rightarrow> RepositoryStatus list option
   \<Rightarrow> py_error + (RepositoryStatus list \<times> event list)" where
  "statuses_or_scan env self done sequential statuses =
     (case statuses of
        None \<Rightarrow> get_all_status env self done True sequential
      | Some sts \<Rightarrow> Inr (sts, []))"

text \<open>
  \<open>repos_to_pull\<close> is the part of \<open>pull_all\<close> before \<open>if dry_run\<close>: it computes the
  local variable of that name.
\<close>

definition repos_to_pull ::
  "git_env \<Rightarrow> FleetManager \<Rightarrow> schedule \<Rightarrow> bool \<Rightarrow> bool \<Rightarrow> PullMode
   \<Rightarrow> RepositoryStatus list option \<Rightarrow> py_error + (GitRepository list \<times> event list)" where
  "repos_to_pull env self sched only_behind sequential mode statuses =
     (let repos = discover_repositories self in
      if only_behind then
        (case statuses_or_scan env self (status_done sched) sequential statuses of
           Inl e \<Rightarrow> Inl e
         | Inr (statuses, ev) \<Rightarrow>
             if mode = FORCE then
               Inr (map fst (filter (\<lambda>(repo, status). needs_pull status)
                               (zip repos statuses)), ev)
             else if mode = SAFE then
               Inr (map fst (filter (\<lambda>(repo, status).
                                        needs_pull status \<and> \<not> has_conflict_risk status)
                               (zip repos statuses)), ev)
             else
               (let (safe, needs_check) = smart_partition (zip repos statuses) [] [] in
                if needs_check \<noteq> [] then
                  (if sequential \<or> length needs_check \<le> 1 then
                     Inr (safe @ filter (\<lambda>repo. \<not> fst (has_file_conflicts env repo))
                                   needs_check,
                          ev @ concat (map (\<lambda>repo. snd (has_file_conflicts env repo))
                                         needs_check))
                   else if max_workers self \<le> 0 then Inl ValueError
                   else
                     (let finished = map (\<lambda>i. needs_check ! i)
                                         (check_done sched (length needs_check)) in
                      Inr (safe @ filter (\<lambda>repo. \<not> fst (has_file_conflicts env repo))
                                    finished,
                           ev @ Pool (max_workers self)
                              # concat (map (\<lambda>repo. snd (has_file_conflicts env repo))
                                         finished))))
                else Inr (safe, ev)))
      else Inr (repos, []))"

definition would :: "string \<Rightarrow> string \<Rightarrow> GitRepository \<Rightarrow> OperationResult" where
  \<comment> \<open>the synthetic result of a dry run\<close>
  "would op msg repo =
     \<lparr>path = path repo, name = name repo, success = True, operation = op,
      message = msg, error = []\<rparr>"

definition pull_all ::
  "git_env \<Rightarrow> FleetManager \<Rightarrow> schedule \<Rightarrow> bool \<Rightarrow> bool \<Rightarrow> bool \<Rightarrow> PullMode
   \<Rightarrow> RepositoryStatus list option \<Rightarrow> py_error + (OperationResult list \<times> event list)" where
  "pull_all env self sched only_behind sequential dry_run mode statuses =
     (case repos_to_pull env self sched only_behind sequential mode statuses of
        Inl e \<Rightarrow> Inl e
      | Inr (selected, ev) \<Rightarrow>
          if dry_run then
            Inr (map (would ''pull'' ''Would pull (dry-run)'') selected, ev)
          else
            (case execute_parallel self (exec_done sched) (pull env) (Some selected)
                    sequential of
               Inl e \<Rightarrow> Inl e
             | Inr (results, ev') \<Rightarrow> Inr (results, ev @ ev')))"

subsection \<open>push_all\<close>

definition repos_to_push ::
  "git_env \<Rightarrow> FleetManager \<Rightarrow> schedule \<Rightarrow> bool \<Rightarrow> bool
   \<Rightarrow> RepositoryStatus list option \<Rightarrow> py_error + (GitRepository list \<times> event list)" where
  "repos_to_push env self sched only_ahead sequential statuses =
     (let repos = discover_repositories self in
      if only_ahead then
        (case statuses_or_scan env self (status_done sched) sequential statuses of
           Inl e \<Rightarrow> Inl e
         | Inr (statuses, ev) \<Rightarrow>
             Inr (map fst (filter (\<lambda>(repo, status). needs_push status)
                             (zip repos statuses)), ev))
      else Inr (repos, []))"

definition push_all ::
  "git_env \<Rightarrow> FleetManager \<Rightarrow> schedule \<Rightarrow> bool \<Rightarrow> bool \<Rightarrow> bool
   \<Rightarrow> RepositoryStatus list option \<Rightarrow> py_error + (OperationResult list \<times> event list)" where
  "push_all env self sched only_ahead sequential dry_run statuses =
     (case repos_to_push env self sched only_ahead sequential statuses of
        Inl e \<Rightarrow> Inl e
      | Inr (selected, ev) \<Rightarrow>
          if dry_run then
            Inr (map (would ''push'' ''Would push (dry-run)'') selected, ev)
          else
            (case execute_parallel self (exec_done sched) (push env) (Some selected)
                    sequential of
               Inl e \<Rightarrow> Inl e
             | Inr (results, ev') \<Rightarrow> Inr (results, ev @ ev')))"

section \<open>Display names (formatters.py)\<close>

fun join :: "string \<Rightarrow> string list \<Rightarrow> string" where
  \<comment> \<open>\<open>sep.join(xs)\<close>\<close>
  "join sep [] = []"
| "join sep [x] = x"
| "join sep (x # y # ys) = x @ sep @ join sep (y # ys)"

text \<open>
  The inner loop of \<open>_make_paths_unique\<close> over \<open>enumerate(path_parts_list)\<close>: it
  leaves with \<open>is_unique = False\<close> at the first other path whose candidate is the same
  string.
\<close>

fun is_unique :: "nat \<Rightarrow> string \<Rightarrow> nat \<Rightarrow> (nat \<times> string list) list \<Rightarrow> bool" where
  "is_unique i candidate depth [] = True"
| "is_unique i candidate depth ((j, other_parts) # rest) =
     (if i \<noteq> j then
        (let other_depth = min depth (length other_parts);
             other_candidate = join ''/'' (rev (take other_depth other_parts))
         in if candidate = other_candidate then False
            else is_unique i candidate depth rest)
      else is_unique i candidate depth rest)"

text \<open>
  The \<open>while depth <= len(parts)\<close> loop with its \<open>else\<close> clause, for the path at index
  \<open>i\<close> whose reversed parts are \<open>parts\<close>.
\<close>

function unique_name :: "nat \<Rightarrow> string list \<Rightarrow> string list list \<Rightarrow> nat \<Rightarrow> string" where
  "unique_name i parts path_parts_list depth =
     (if depth \<le> length parts then
        (let candidate = join ''/'' (rev (take depth parts)) in
         if is_unique i candidate depth (enumerate 0 path_parts_list) then candidate
         else unique_name i parts path_parts_list (depth + 1))
      else join ''/'' (rev parts))"
  by pat_completeness auto
termination
  by (relation "measure (\<lambda>(i, parts, path_parts_list, depth). Suc (length parts) - depth)") auto

declare unique_name.simps [simp del]

definition make_paths_unique :: "Path list \<Rightarrow> string list" where
  \<comment> \<open>\<open>_make_paths_unique\<close>\<close>
  "make_paths_unique paths =
     (let path_parts_list = map rev paths in
      map (\<lambda>(i, parts). unique_name i parts path_parts_list 1)
        (enumerate 0 path_parts_list))"

text \<open>
  The parts of a \<open>pathlib\<close> path: non-empty segments without a slash, after at most one
  root (\<open>/\<close> or \<open>//\<close>). \<open>trailing d p\<close> is the last \<open>d\<close> segments of \<open>p\<close>.
\<close>

definition segment :: "string \<Rightarrow> bool" where
  "segment s = (s \<noteq> [] \<and> CHR ''/'' \<notin> set s)"

definition root :: "string \<Rightarrow> bool" where
  "root s = (s = ''/'' \<or> s = ''//'')"

definition wf_parts :: "Path \<Rightarrow> bool" where
  "wf_parts p = (case p of [] \<Rightarrow> True | x # xs \<Rightarrow> (root x \<or> segment x) \<and> list_all segment xs)"

definition trailing :: "nat \<Rightarrow> Path \<Rightarrow> Path" where
  "trailing d p = drop (length p - d) p"

definition shared_by_other :: "Path list \<Rightarrow> nat \<Rightarrow> nat \<Rightarrow> bool" where
  \<comment> \<open>some other path of the input ends in the last \<open>d\<close> segments of the path at \<open>i\<close>\<close>
  "shared_by_other paths i d =
     (\<exists>j < length paths. j \<noteq> i \<and> d \<le> length (paths ! j)
        \<and> trailing d (paths ! j) = trailing d (paths ! i))"

text \<open>
  \<open>compute_unique_display_names\<close>, for the attributes \<open>name\<close> and \<open>path\<close>.
  \<open>group_append\<close> is \<open>name_groups[name].append(item)\<close> on the dictionary of lists, which
  keeps its keys in insertion order; \<open>assign_group\<close> is the body of the loop over
  \<open>name_groups.items()\<close>, which stores into the dictionary \<open>result\<close>.
\<close>

fun group_append :: "string \<Rightarrow> 'a \<Rightarrow> (string \<times> 'a list) list \<Rightarrow> (string \<times> 'a list) list" where
  "group_append k v [] = [(k, [v])]"
| "group_append k v ((k', vs) # rest) =
     (if k' = k then (k', vs @ [v]) # rest else (k', vs) # group_append k v rest)"

definition name_groups ::
  "'a GitRepository_scheme list \<Rightarrow> (string \<times> 'a GitRepository_scheme list) list" where
  "name_groups items = foldl (\<lambda>groups item. group_append (name item) item groups) [] items"

definition assign_group ::
  "(Path \<rightharpoonup> string) \<Rightarrow> string \<times> 'a GitRepository_scheme list \<Rightarrow> (Path \<rightharpoonup> string)" where
  "assign_group result g =
     (case g of (nm, members) \<Rightarrow>
        if length members = 1 then result(path (members ! 0) \<mapsto> nm)
        else
          (let paths = map path members;
               unique_names = make_paths_unique paths
           in foldl (\<lambda>result (p, unique_name). result(p \<mapsto> unique_name)) result
                (zip paths unique_names)))"

definition compute_unique_display_names ::
  "'a GitRepository_scheme list \<Rightarrow> (Path \<rightharpoonup> string)" where
  "compute_unique_display_names items = foldl assign_group Map.empty (name_groups items)"

definition assignments :: "string \<times> 'a GitRepository_scheme list \<Rightarrow> (Path \<times> string) list" where
  \<comment> \<open>the stores into \<open>result\<close> that the loop body makes for one group, in order\<close>
  "assignments g =
     (case g of (nm, members) \<Rightarrow>
        if length members = 1 then [(path (members ! 0), nm)]
        else zip (map path members) (make_paths_unique (map path members)))"

section \<open>A small fleet\<close>

text \<open>
  Three repositories under \<open>/w\<close>, used to evaluate the model: \<open>a\<close> is behind with a
  clean tree, \<open>b\<close> has diverged and touched \<open>y.py\<close> where the remote touched \<open>x.py\<close>,
  \<open>c\<close> has diverged and touched \<open>x.py\<close> as the remote did.
\<close>

definition repo_a :: GitRepository where
  "repo_a = GitRepository_init [''/'', ''w'', ''a'']"

definition repo_b :: GitRepository where
  "repo_b = GitRepository_init [''/'', ''w'', ''b'']"

definition repo_c :: GitRepository where
  "repo_c = GitRepository_init [''/'', ''w'', ''c'']"

definition status_of :: "GitRepository \<Rightarrow> SyncStatus \<Rightarrow> int \<Rightarrow> int \<Rightarrow> RepositoryStatus" where
  "status_of repo sync ahead behind =
     (status_init repo)\<lparr>branch := ''main'', remote_branch := ''origin/main'',
        sync_status := sync, ahead_count := ahead, behind_count := behind\<rparr>"

definition conflicted_stream :: "string list" where
  \<comment> \<open>a status stream whose only change is one unmerged entry\<close>
  "conflicted_stream =
     [''# branch.oid 6a1f0c2'', ''# branch.head main'', ''# branch.upstream origin/main'',
      ''# branch.ab +1 -1'', ''u UU N... 100644 100644 100644 100644 1a 2b 3c x.py'']"

definition fleet_env :: git_env where
  "fleet_env =
     \<lparr>fetch_all_out = (\<lambda>p. (True, [])),
      status_out = (\<lambda>p. Some (0, conflicted_stream)),
      has_remotes_out = (\<lambda>p. True),
      last_commit_date_out = (\<lambda>p. None),
      merge_base_out = (\<lambda>p. Some ''6a1f0c2''),
      changed_files_out = (\<lambda>p ref1 ref2.
         if ref2 = upstream_ref \<or> p = path repo_c then {''x.py''} else {''y.py''}),
      dirty_files_out = (\<lambda>p. {}),
      pull_out = (\<lambda>p. (True, ''Already up to date.'')),
      push_out = (\<lambda>p. (True, ''Everything up-to-date''))\<rparr>"

definition fleet :: FleetManager where
  "fleet = \<lparr>max_workers = 8, repositories = [repo_a, repo_b, repo_c]\<rparr>"

definition fleet_statuses :: "RepositoryStatus list" where
  "fleet_statuses =
     [status_of repo_a BEHIND 0 2, status_of repo_b DIVERGED 1 1, status_of repo_c DIVERGED 2 1]"

definition reversed_completion :: completion where
  \<comment> \<open>the futures complete in the reverse of their submission order\<close>
  "reversed_completion n = rev [0..<n]"

definition reversed_schedule :: schedule where
  "reversed_schedule =
     \<lparr>status_done = reversed_completion, check_done = reversed_completion,
      exec_done = reversed_completion\<rparr>"

definition broken_statuses :: "RepositoryStatus list" where
  \<comment> \<open>the fleet when the status of \<open>a\<close> could not be gathered\<close>
  "broken_statuses =
     [(status_init repo_a)\<lparr>sync_status := ERROR, error_message := ''Fetch failed: timeout''\<rparr>,
      status_of repo_b DIVERGED 1 1, status_of repo_c DIVERGED 2 1]"

definition unlocated :: "GitRepository \<Rightarrow> GitRepository \<times> event list" where
  \<comment> \<open>an operation whose results do not carry the path of their repository\<close>
  "unlocated repo = (\<lparr>path = [], name = name repo\<rparr>, [])"

definition crossed_statuses :: "RepositoryStatus list" where
  \<comment> \<open>\<open>a\<close> has diverged without touching the files the remote touched, \<open>b\<close> is behind\<close>
  "crossed_statuses =
     [status_of repo_a DIVERGED 1 1, status_of repo_b BEHIND 0 2, status_of repo_c DIVERGED 2 1]"

definition diverged_statuses :: "RepositoryStatus list" where
  "diverged_statuses =
     [status_of repo_a DIVERGED 1 1, status_of repo_b DIVERGED 1 1, status_of repo_c DIVERGED 2 1]"

definition submission_schedule :: schedule where
  \<comment> \<open>the futures complete in the order of their submission\<close>
  "submission_schedule =
     \<lparr>status_done = (\<lambda>n. [0..<n]), check_done = (\<lambda>n. [0..<n]), exec_done = (\<lambda>n. [0..<n])\<rparr>"

definition sample_paths :: "Path list" where
  \<comment> \<open>three repositories named \<open>x\<close>; two of them lie in directories named \<open>a\<close>\<close>
  "sample_paths =
     [[''/'', ''w'', ''a'', ''x''], [''/'', ''w'', ''b'', ''x''], [''/'', ''v'', ''a'', ''x'']]"

definition sample_items :: "GitRepository list" where
  \<comment> \<open>the three repositories named \<open>x\<close> and one named \<open>y\<close>\<close>
  "sample_items = map GitRepository_init ([''/'', ''w'', ''y''] # sample_paths)"

definition ahead_stream :: "string list" where
  \<comment> \<open>what git prints for a clean working tree two commits ahead of its upstream\<close>
  "ahead_stream =
     [''# branch.oid 6a1f0c2'', ''# branch.head main'', ''# branch.upstream origin/main'',
      ''# branch.ab +2 -0'']"

definition ahead_env :: git_env where
  "ahead_env = fleet_env\<lparr>status_out := (\<lambda>p. Some (0, ahead_stream))\<rparr>"

section \<open>Shapes of status lines\<close>

text \<open>
  \<open>raises line\<close>: processing the line raises an exception, which ends the loop of
  \<open>get_status_porcelain\<close>. \<open>git status --porcelain=v2\<close> emits no such line: its
  \<open># branch.ab\<close> line has four fields and its changed entries are longer than four
  characters.
\<close>

definition raises :: "string \<Rightarrow> bool" where
  "raises line = (case porcelain_line info_init line of Inl e \<Rightarrow> True | Inr info \<Rightarrow> False)"

definition unmerged_entry :: "string \<Rightarrow> bool" where
  "unmerged_entry line = startswith line ''u ''"

definition changed_entry :: "string \<Rightarrow> bool" where
  "changed_entry line = (startswith line ''1 '' \<or> startswith line ''2 '')"

definition header_line :: "string \<Rightarrow> bool" where
  "header_line line = startswith line ''# ''"

section \<open>The selection rules in the words of the specification\<close>

text \<open>
  \<open>pull_condition\<close> says which repository a pull in a given mode is to select, as the
  specification states it; \<open>repos_to_pull\<close> above is what the code computes.
\<close>

definition pull_condition ::
  "git_env \<Rightarrow> PullMode \<Rightarrow> GitRepository \<Rightarrow> RepositoryStatus \<Rightarrow> bool" where
  "pull_condition env mode repo status =
     (case mode of
        FORCE \<Rightarrow> needs_pull status
      | SAFE \<Rightarrow> needs_pull status \<and> \<not> has_conflict_risk status
      | SMART \<Rightarrow> needs_pull status
                 \<and> (\<not> has_conflict_risk status
                      \<or> (has_conflict_risk status \<and> \<not> fst (has_file_conflicts env repo))))"

fun pull_or_push :: "event \<Rightarrow> bool" where
  "pull_or_push (Call p Pull) = True"
| "pull_or_push (Call p Push) = True"
| "pull_or_push e = False"

section \<open>Verified properties\<close>

subsection \<open>Status predicates\<close>

lemma porcelain_line_nonneg:
  assumes "0 \<le> info_ahead info" "0 \<le> info_behind info" "0 \<le> info_staged_count info"
    "0 \<le> info_unstaged_count info" "0 \<le> info_untracked_count info"
    and "porcelain_line info line = Inr info' \<or> porcelain_line info line = Inl (e, info')"
  shows "0 \<le> info_ahead info' \<and> 0 \<le> info_behind info' \<and> 0 \<le> info_staged_count info'
    \<and> 0 \<le> info_unstaged_count info' \<and> 0 \<le> info_untracked_count info'"
  using assms
  by (auto simp: porcelain_line_def Let_def split: if_splits option.splits)

lemma porcelain_lines_nonneg:
  assumes "0 \<le> info_ahead info" "0 \<le> info_behind info" "0 \<le> info_staged_count info"
    "0 \<le> info_unstaged_count info" "0 \<le> info_untracked_count info"
    and "porcelain_lines info lines = Inr info' \<or> porcelain_lines info lines = Inl (e, info')"
  shows "0 \<le> info_ahead info' \<and> 0 \<le> info_behind info' \<and> 0 \<le> info_staged_count info'
    \<and> 0 \<le> info_unstaged_count info' \<and> 0 \<le> info_untracked_count info'"
  using assms
proof (induction lines arbitrary: info)
  case Nil
  then show ?case by auto
next
  case (Cons line rest)
  show ?case
  proof (cases "porcelain_line info line")
    case (Inl a)
    then have "porcelain_line info line = Inl (e, info')"
      using Cons.prems(6) by auto
    then show ?thesis
      using porcelain_line_nonneg [OF Cons.prems(1-5)] by blast
  next
    case (Inr info1)
    then have nn: "0 \<le> info_ahead info1 \<and> 0 \<le> info_behind info1 \<and> 0 \<le> info_staged_count info1
      \<and> 0 \<le> info_unstaged_count info1 \<and> 0 \<le> info_untracked_count info1"
      using porcelain_line_nonneg [OF Cons.prems(1-5)] by blast
    have "porcelain_lines info1 rest = Inr info' \<or> porcelain_lines info1 rest = Inl (e, info')"
      using Cons.prems(6) Inr by simp
    then show ?thesis
      using Cons.IH [of info1] nn by blast
  qed
qed

lemma get_status_porcelain_nonneg:
  "0 \<le> info_ahead (get_status_porcelain env p) \<and> 0 \<le> info_behind (get_status_porcelain env p)
   \<and> 0 \<le> info_staged_count (get_status_porcelain env p)
   \<and> 0 \<le> info_unstaged_count (get_status_porcelain env p)
   \<and> 0 \<le> info_untracked_count (get_status_porcelain env p)"
proof -
  have init: "0 \<le> info_ahead info_init" "0 \<le> info_behind info_init"
    "0 \<le> info_staged_count info_init" "0 \<le> info_unstaged_count info_init"
    "0 \<le> info_untracked_count info_init"
    by (simp_all add: info_init_def)
  show ?thesis
  proof (cases "status_out env p")
    case None
    then show ?thesis by (simp add: get_status_porcelain_def info_init_def)
  next
    case (Some run)
    obtain returncode lines where run: "run = (returncode, lines)" by (cases run)
    show ?thesis
    proof (cases "returncode = 0")
      case False
      then show ?thesis using Some run by (simp add: get_status_porcelain_def info_init_def)
    next
      case True
      show ?thesis
      proof (cases "porcelain_lines info_init lines")
        case (Inl a)
        obtain e info' where a: "a = (e, info')" by (cases a)
        have "get_status_porcelain env p = info'"
          using Some run True Inl a by (simp add: get_status_porcelain_def)
        then show ?thesis
          using porcelain_lines_nonneg [OF init, of lines info' e] Inl a by simp
      next
        case (Inr info')
        have "get_status_porcelain env p = info'"
          using Some run True Inr by (simp add: get_status_porcelain_def)
        then show ?thesis
          using porcelain_lines_nonneg [OF init, of lines info'] Inr by simp
      qed
    qed
  qed
qed

text \<open>
  Every status that \<open>get_status\<close> builds has counts that are not negative, as counts are.
\<close>

lemma get_status_counts_nonneg:
  "0 \<le> staged_count (fst (get_status env fetch_first repo))
   \<and> 0 \<le> unstaged_count (fst (get_status env fetch_first repo))
   \<and> 0 \<le> untracked_count (fst (get_status env fetch_first repo))"
  using get_status_porcelain_nonneg [of env "path repo"]
  by (simp add: get_status_def Let_def status_init_def split: prod.splits)

text \<open>
  C4. \<open>needs_push\<close> holds exactly for \<open>ahead\<close> and \<open>diverged\<close>, \<open>needs_pull\<close> exactly for
  \<open>behind\<close> and \<open>diverged\<close>. \<open>has_conflict_risk\<close> holds exactly when the status is
  \<open>diverged\<close>, or it needs a pull and one of the three counts is positive; for counts
  that are not negative that is: the status is \<open>diverged\<close>, or it needs a pull and
  staged + unstaged + untracked > 0. It is false for \<open>clean\<close>, \<open>ahead\<close>, \<open>no_upstream\<close>,
  \<open>no_remote\<close>, \<open>detached\<close> and \<open>error\<close>, whatever the working tree.
\<close>

theorem conflict_risk_characterisation:
  "(needs_push s \<longleftrightarrow> sync_status s \<in> {AHEAD, DIVERGED})
   \<and> (needs_pull s \<longleftrightarrow> sync_status s \<in> {BEHIND, DIVERGED})
   \<and> (has_conflict_risk s \<longleftrightarrow>
        sync_status s = DIVERGED
        \<or> (needs_pull s \<and> (staged_count s > 0 \<or> unstaged_count s > 0 \<or> untracked_count s > 0)))
   \<and> (0 \<le> staged_count s \<and> 0 \<le> unstaged_count s \<and> 0 \<le> untracked_count s \<longrightarrow>
        (has_conflict_risk s \<longleftrightarrow>
           sync_status s = DIVERGED
           \<or> (needs_pull s \<and> staged_count s + unstaged_count s + untracked_count s > 0)))
   \<and> (sync_status s \<in> {CLEAN, AHEAD, NO_UPSTREAM, NO_REMOTE, DETACHED, ERROR} \<longrightarrow>
        \<not> has_conflict_risk s)"
  by (auto simp: needs_push_def needs_pull_def has_conflict_risk_def is_diverged_def
      working_tree_status_def)

theorem conflict_risk_characterisation_witness:
  "has_conflict_risk ((status_of repo_a BEHIND 0 2)\<lparr>untracked_count := 3\<rparr>)
   \<and> \<not> has_conflict_risk (status_of repo_a BEHIND 0 2)
   \<and> \<not> has_conflict_risk ((status_of repo_a AHEAD 1 0)\<lparr>staged_count := 1\<rparr>)"
  using conflict_risk_characterisation [of "(status_of repo_a BEHIND 0 2)\<lparr>untracked_count := 3\<rparr>"]
    conflict_risk_characterisation [of "status_of repo_a BEHIND 0 2"]
    conflict_risk_characterisation [of "(status_of repo_a AHEAD 1 0)\<lparr>staged_count := 1\<rparr>"]
  by (simp add: status_of_def status_init_def)

subsection \<open>The conflict-risk resolver\<close>

text \<open>
  C2. \<open>has_file_conflicts\<close> answers true when no merge-base is found; with a merge-base
  \<open>m\<close> it answers true exactly when some file changed between \<open>m\<close> and the upstream is
  also changed between \<open>m\<close> and \<open>HEAD\<close> or dirty.
\<close>

theorem has_file_conflicts_overlap:
  "(merge_base_out env (path repo) = None \<longrightarrow> fst (has_file_conflicts env repo))
   \<and> (\<forall>m. merge_base_out env (path repo) = Some m \<longrightarrow>
         (fst (has_file_conflicts env repo) \<longleftrightarrow>
            (changed_files_out env (path repo) m ''HEAD'' \<union> dirty_files_out env (path repo))
            \<inter> changed_files_out env (path repo) m upstream_ref \<noteq> {}))"
  by (simp add: has_file_conflicts_def Let_def)

theorem has_file_conflicts_overlap_witness:
  "\<not> fst (has_file_conflicts fleet_env repo_b)
   \<and> fst (has_file_conflicts fleet_env repo_c)
   \<and> fst (has_file_conflicts (fleet_env\<lparr>merge_base_out := (\<lambda>p. None)\<rparr>) repo_b)"
proof -
  have neq: "path repo_b \<noteq> path repo_c" "''HEAD'' \<noteq> upstream_ref"
    by (simp_all add: repo_b_def repo_c_def GitRepository_init_def upstream_ref_def)
  have mb: "merge_base_out fleet_env (path repo_b) = Some ''6a1f0c2''"
    "merge_base_out fleet_env (path repo_c) = Some ''6a1f0c2''"
    "merge_base_out (fleet_env\<lparr>merge_base_out := (\<lambda>p. None)\<rparr>) (path repo_b) = None"
    by (simp_all add: fleet_env_def)
  show ?thesis
    using has_file_conflicts_overlap [of fleet_env repo_b]
      has_file_conflicts_overlap [of fleet_env repo_c]
      has_file_conflicts_overlap [of "fleet_env\<lparr>merge_base_out := (\<lambda>p. None)\<rparr>" repo_b]
      neq mb
    by (simp add: fleet_env_def)
qed

subsection \<open>The status probe\<close>

lemma startswith_Nil: "startswith s [] = True"
  by (simp add: startswith_def)

lemma startswith_Cons: "startswith (c # r) (d # p) = (c = d \<and> startswith r p)"
  by (simp add: startswith_def)

lemma startswith_empty: "startswith [] (d # p) = False"
  by (simp add: startswith_def)

lemmas startswith_simps = startswith_Nil startswith_Cons startswith_empty

lemma porcelain_line_unmerged:
  assumes "startswith line ''u ''"
  shows "porcelain_line info line =
     Inr (info\<lparr>info_staged_count := info_staged_count info + 1,
               info_unstaged_count := info_unstaged_count info + 1\<rparr>)"
proof -
  obtain r where "line = CHR ''u'' # r"
    using assms by (cases line) (auto simp: startswith_simps)
  then show ?thesis
    using assms by (simp add: porcelain_line_def startswith_simps)
qed

lemma porcelain_line_hash:
  assumes "line = CHR ''#'' # r" and "\<not> raises line"
  shows "\<exists>info'. porcelain_line info line = Inr info'
    \<and> info_staged_count info' = info_staged_count info
    \<and> info_unstaged_count info' = info_unstaged_count info
    \<and> info_untracked_count info' = info_untracked_count info"
proof (cases "startswith line ''# branch.head '' \<or> startswith line ''# branch.upstream ''")
  case True
  then show ?thesis by (auto simp: porcelain_line_def)
next
  case False
  note nohead = this
  show ?thesis
  proof (cases "startswith line ''# branch.ab '' \<and> length (split_ws line) = 3")
    case False
    then show ?thesis
      using nohead assms(1) by (auto simp: porcelain_line_def Let_def startswith_simps)
  next
    case True
    have "\<exists>a b. py_int (split_ws line ! 1) = Some a \<and> py_int (split_ws line ! 2) = Some b"
      using assms(2) nohead True
      by (auto simp: raises_def porcelain_line_def Let_def split: option.splits)
    then show ?thesis
      using nohead True by (auto simp: porcelain_line_def Let_def)
  qed
qed

lemma porcelain_line_changed:
  assumes "changed_entry line" and "\<not> raises line"
  shows "\<exists>info'. porcelain_line info line = Inr info'
    \<and> info_staged_count info' = info_staged_count info
        + (if line ! 2 \<noteq> CHR ''.'' then 1 else 0)
    \<and> info_unstaged_count info' = info_unstaged_count info
        + (if line ! 3 \<noteq> CHR ''.'' then 1 else 0)
    \<and> info_untracked_count info' = info_untracked_count info"
proof -
  have pre: "\<not> startswith line ''# branch.head ''" "\<not> startswith line ''# branch.upstream ''"
    "\<not> startswith line ''# branch.ab ''" "startswith line ''1 '' \<or> startswith line ''2 ''"
    using assms(1) by (cases line; auto simp: changed_entry_def startswith_simps)+
  have len: "length (take 2 (drop 2 line)) = 2"
    using assms(2) pre
    by (simp add: raises_def porcelain_line_def Let_def split: if_splits)
  then have l4: "4 \<le> length line" by simp
  have xy: "take 2 (drop 2 line) ! 0 = line ! 2" "take 2 (drop 2 line) ! 1 = line ! 3"
    using l4 by simp_all
  have l2: "\<not> length line \<le> 2" using l4 by simp
  show ?thesis
    using pre len l2 by (simp add: porcelain_line_def Let_def xy)
qed

lemma porcelain_line_other:
  assumes "line = [] \<or> hd line \<notin> {CHR ''#'', CHR ''1'', CHR ''2'', CHR ''u''}"
  shows "porcelain_line info line =
    Inr (if startswith line ''? ''
         then info\<lparr>info_untracked_count := info_untracked_count info + 1\<rparr> else info)"
  using assms by (cases line) (auto simp: porcelain_line_def startswith_simps)

lemma porcelain_line_counts:
  assumes "\<not> raises line"
  shows "\<exists>info'. porcelain_line info line = Inr info'
    \<and> info_staged_count info' = info_staged_count info
        + (if unmerged_entry line \<or> (changed_entry line \<and> line ! 2 \<noteq> CHR ''.'') then 1 else 0)
    \<and> info_unstaged_count info' = info_unstaged_count info
        + (if unmerged_entry line \<or> (changed_entry line \<and> line ! 3 \<noteq> CHR ''.'') then 1 else 0)
    \<and> (header_line line \<or> unmerged_entry line \<longrightarrow>
          info_untracked_count info' = info_untracked_count info)"
proof -
  consider (u) "unmerged_entry line" | (c) "changed_entry line"
    | (h) r where "line = CHR ''#'' # r"
    | (o) "line = [] \<or> hd line \<notin> {CHR ''#'', CHR ''1'', CHR ''2'', CHR ''u''}"
    | (x) "line \<noteq> []" "hd line \<in> {CHR ''1'', CHR ''2'', CHR ''u''}"
          "\<not> unmerged_entry line" "\<not> changed_entry line"
    by (cases line) (auto simp: unmerged_entry_def changed_entry_def startswith_simps)
  then show ?thesis
  proof cases
    case u
    then have "\<not> changed_entry line"
      by (cases line) (auto simp: unmerged_entry_def changed_entry_def startswith_simps)
    then show ?thesis
      using u porcelain_line_unmerged [of line info] by (simp add: unmerged_entry_def)
  next
    case c
    then have "\<not> unmerged_entry line"
      by (cases line) (auto simp: unmerged_entry_def changed_entry_def startswith_simps)
    moreover have "\<not> header_line line"
      using c by (cases line) (auto simp: header_line_def changed_entry_def startswith_simps)
    ultimately show ?thesis
      using porcelain_line_changed [OF c assms, of info] c by auto
  next
    case h
    then have "\<not> unmerged_entry line" "\<not> changed_entry line"
      by (auto simp: unmerged_entry_def changed_entry_def startswith_simps)
    then show ?thesis
      using porcelain_line_hash [OF h assms, of info] by auto
  next
    case o
    then have "\<not> unmerged_entry line" "\<not> changed_entry line" "\<not> header_line line"
      by (cases line; auto simp: unmerged_entry_def changed_entry_def header_line_def
          startswith_simps)+
    then show ?thesis
      using porcelain_line_other [OF o, of info] by auto
  next
    case x
    then have "porcelain_line info line = Inr info"
      by (cases line)
        (auto simp: porcelain_line_def unmerged_entry_def changed_entry_def startswith_simps)
    moreover have "\<not> header_line line"
      using x by (cases line) (auto simp: header_line_def startswith_simps)
    ultimately show ?thesis using x by simp
  qed
qed

lemma porcelain_lines_counts:
  assumes "\<forall>l \<in> set lines. \<not> raises l"
  shows "\<exists>info'. porcelain_lines info lines = Inr info'
    \<and> info_staged_count info' = info_staged_count info
        + int (length (filter (\<lambda>l. unmerged_entry l \<or> (changed_entry l \<and> l ! 2 \<noteq> CHR ''.'')) lines))
    \<and> info_unstaged_count info' = info_unstaged_count info
        + int (length (filter (\<lambda>l. unmerged_entry l \<or> (changed_entry l \<and> l ! 3 \<noteq> CHR ''.'')) lines))
    \<and> ((\<forall>l \<in> set lines. header_line l \<or> unmerged_entry l) \<longrightarrow>
          info_untracked_count info' = info_untracked_count info)"
  using assms
proof (induction lines arbitrary: info)
  case Nil
  then show ?case by simp
next
  case (Cons line rest)
  have nr: "\<not> raises line" and rest: "\<forall>l \<in> set rest. \<not> raises l"
    using Cons.prems by simp_all
  obtain info1 where s1: "porcelain_line info line = Inr info1"
    and c1: "info_staged_count info1 = info_staged_count info
        + (if unmerged_entry line \<or> (changed_entry line \<and> line ! 2 \<noteq> CHR ''.'') then 1 else 0)"
    and c2: "info_unstaged_count info1 = info_unstaged_count info
        + (if unmerged_entry line \<or> (changed_entry line \<and> line ! 3 \<noteq> CHR ''.'') then 1 else 0)"
    and c3: "header_line line \<or> unmerged_entry line \<longrightarrow>
          info_untracked_count info1 = info_untracked_count info"
    using porcelain_line_counts [OF nr, of info] by blast
  obtain info' where s2: "porcelain_lines info1 rest = Inr info'"
    and d1: "info_staged_count info' = info_staged_count info1
        + int (length (filter (\<lambda>l. unmerged_entry l \<or> (changed_entry l \<and> l ! 2 \<noteq> CHR ''.'')) rest))"
    and d2: "info_unstaged_count info' = info_unstaged_count info1
        + int (length (filter (\<lambda>l. unmerged_entry l \<or> (changed_entry l \<and> l ! 3 \<noteq> CHR ''.'')) rest))"
    and d3: "(\<forall>l \<in> set rest. header_line l \<or> unmerged_entry l) \<longrightarrow>
          info_untracked_count info' = info_untracked_count info1"
    using Cons.IH [OF rest, of info1] by blast
  have "porcelain_lines info (line # rest) = Inr info'"
    using s1 s2 by simp
  moreover have "info_staged_count info' = info_staged_count info
        + int (length (filter (\<lambda>l. unmerged_entry l \<or> (changed_entry l \<and> l ! 2 \<noteq> CHR ''.'')) (line # rest)))"
    using c1 d1 by simp
  moreover have "info_unstaged_count info' = info_unstaged_count info
        + int (length (filter (\<lambda>l. unmerged_entry l \<or> (changed_entry l \<and> l ! 3 \<noteq> CHR ''.'')) (line # rest)))"
    using c2 d2 by simp
  moreover have "(\<forall>l \<in> set (line # rest). header_line l \<or> unmerged_entry l) \<longrightarrow>
          info_untracked_count info' = info_untracked_count info"
    using c3 d3 by auto
  ultimately show ?case by blast
qed

lemma unmerged_not_changed: "unmerged_entry l \<Longrightarrow> \<not> changed_entry l"
  by (cases l) (auto simp: unmerged_entry_def changed_entry_def startswith_simps)

lemma length_filter_disj:
  assumes "\<And>x. P x \<Longrightarrow> \<not> Q x"
  shows "length (filter (\<lambda>x. P x \<or> Q x) xs) = length (filter P xs) + length (filter Q xs)"
  using assms by (induction xs) auto

text \<open>
  C10. A line beginning with \<open>u \<close> adds one to the staged count and one to the unstaged
  count. When the probe succeeds and no line of its stream raises, the staged (unstaged)
  count of the status is the number of unmerged entries plus the number of changed entries
  whose X (Y) code is not a dot, so one unmerged entry makes the working tree dirty; when
  the stream holds only header lines and unmerged entries, staged = unstaged = the number
  of unmerged entries and untracked = 0.
\<close>

theorem unmerged_entries_make_dirty:
  "(unmerged_entry line \<longrightarrow>
      porcelain_line info line =
        Inr (info\<lparr>info_staged_count := info_staged_count info + 1,
                  info_unstaged_count := info_unstaged_count info + 1\<rparr>))
   \<and> (status_out env (path repo) = Some (0, lines) \<and> (\<forall>l \<in> set lines. \<not> raises l)
        \<and> (\<not> fetch_first \<or> fst (fetch_all_out env (path repo))) \<longrightarrow>
       (let st = fst (get_status env fetch_first repo);
            n = int (length (filter unmerged_entry lines))
        in staged_count st
             = n + int (length (filter (\<lambda>l. changed_entry l \<and> l ! 2 \<noteq> CHR ''.'') lines))
           \<and> unstaged_count st
             = n + int (length (filter (\<lambda>l. changed_entry l \<and> l ! 3 \<noteq> CHR ''.'') lines))
           \<and> (n > 0 \<longrightarrow> staged_count st + unstaged_count st > 0
                         \<and> working_tree_status st = TREE_DIRTY)
           \<and> ((\<forall>l \<in> set lines. header_line l \<or> unmerged_entry l) \<longrightarrow>
                 staged_count st = n \<and> unstaged_count st = n \<and> untracked_count st = 0)))"
proof (intro conjI impI)
  assume "unmerged_entry line"
  then show "porcelain_line info line =
        Inr (info\<lparr>info_staged_count := info_staged_count info + 1,
                  info_unstaged_count := info_unstaged_count info + 1\<rparr>)"
    using porcelain_line_unmerged [of line info] by (simp add: unmerged_entry_def)
next
  assume a: "status_out env (path repo) = Some (0, lines) \<and> (\<forall>l \<in> set lines. \<not> raises l)
        \<and> (\<not> fetch_first \<or> fst (fetch_all_out env (path repo)))"
  let ?S = "\<lambda>l. changed_entry l \<and> l ! 2 \<noteq> CHR ''.''"
  let ?U = "\<lambda>l. changed_entry l \<and> l ! 3 \<noteq> CHR ''.''"
  let ?n = "int (length (filter unmerged_entry lines))"
  obtain info' where run: "porcelain_lines info_init lines = Inr info'"
    and s: "info_staged_count info' = info_staged_count info_init
        + int (length (filter (\<lambda>l. unmerged_entry l \<or> ?S l) lines))"
    and u: "info_unstaged_count info' = info_unstaged_count info_init
        + int (length (filter (\<lambda>l. unmerged_entry l \<or> ?U l) lines))"
    and t: "(\<forall>l \<in> set lines. header_line l \<or> unmerged_entry l) \<longrightarrow>
          info_untracked_count info' = info_untracked_count info_init"
    using porcelain_lines_counts [of lines info_init] a by blast
  have probe: "get_status_porcelain env (path repo) = info'"
    using a run by (simp add: get_status_porcelain_def)
  have go: "\<not> (fetch_first \<and> \<not> fst (fetch_all_out env (path repo)))"
    using a by blast
  let ?st = "fst (get_status env fetch_first repo)"
  have fields: "staged_count ?st = info_staged_count info'"
    "unstaged_count ?st = info_unstaged_count info'"
    "untracked_count ?st = info_untracked_count info'"
    using go probe
    by (simp_all add: get_status_def Let_def status_init_def split: prod.splits)
  have s': "staged_count ?st = ?n + int (length (filter ?S lines))"
    using s fields length_filter_disj [of unmerged_entry ?S lines] unmerged_not_changed
    by (simp add: info_init_def)
  have u': "unstaged_count ?st = ?n + int (length (filter ?U lines))"
    using u fields length_filter_disj [of unmerged_entry ?U lines] unmerged_not_changed
    by (simp add: info_init_def)
  have dirty: "?n > 0 \<longrightarrow> staged_count ?st + unstaged_count ?st > 0
      \<and> working_tree_status ?st = TREE_DIRTY"
  proof
    assume pos: "?n > 0"
    have "0 \<le> int (length (filter ?S lines))" "0 \<le> int (length (filter ?U lines))"
      by simp_all
    then have "staged_count ?st > 0" "unstaged_count ?st > 0"
      using s' u' pos by linarith+
    then show "staged_count ?st + unstaged_count ?st > 0
        \<and> working_tree_status ?st = TREE_DIRTY"
      by (simp add: working_tree_status_def)
  qed
  have only: "(\<forall>l \<in> set lines. header_line l \<or> unmerged_entry l) \<longrightarrow>
      staged_count ?st = ?n \<and> unstaged_count ?st = ?n \<and> untracked_count ?st = 0"
  proof
    assume h: "\<forall>l \<in> set lines. header_line l \<or> unmerged_entry l"
    have nc: "\<forall>l \<in> set lines. \<not> changed_entry l"
    proof
      fix l assume "l \<in> set lines"
      then have "header_line l \<or> unmerged_entry l" using h by blast
      then show "\<not> changed_entry l"
        using unmerged_not_changed [of l]
        by (cases l) (auto simp: header_line_def changed_entry_def startswith_simps)
    qed
    have "filter ?S lines = []" "filter ?U lines = []"
      using nc by (simp_all add: filter_empty_conv)
    then show "staged_count ?st = ?n \<and> unstaged_count ?st = ?n \<and> untracked_count ?st = 0"
      using s' u' t h fields by (simp add: info_init_def)
  qed
  show "let st = fst (get_status env fetch_first repo);
            n = int (length (filter unmerged_entry lines))
        in staged_count st
             = n + int (length (filter (\<lambda>l. changed_entry l \<and> l ! 2 \<noteq> CHR ''.'') lines))
           \<and> unstaged_count st
             = n + int (length (filter (\<lambda>l. changed_entry l \<and> l ! 3 \<noteq> CHR ''.'') lines))
           \<and> (n > 0 \<longrightarrow> staged_count st + unstaged_count st > 0
                         \<and> working_tree_status st = TREE_DIRTY)
           \<and> ((\<forall>l \<in> set lines. header_line l \<or> unmerged_entry l) \<longrightarrow>
                 staged_count st = n \<and> unstaged_count st = n \<and> untracked_count st = 0)"
    unfolding Let_def using s' u' dirty only by blast
qed

theorem unmerged_entries_make_dirty_witness:
  "staged_count (fst (get_status fleet_env True repo_a)) = 1
   \<and> unstaged_count (fst (get_status fleet_env True repo_a)) = 1
   \<and> untracked_count (fst (get_status fleet_env True repo_a)) = 0
   \<and> working_tree_status (fst (get_status fleet_env True repo_a)) = TREE_DIRTY"
proof -
  have ok: "\<forall>l \<in> set conflicted_stream. \<not> raises l"
    by code_simp
  have shape: "\<forall>l \<in> set conflicted_stream. header_line l \<or> unmerged_entry l"
    by code_simp
  have n: "int (length (filter unmerged_entry conflicted_stream)) = 1"
    by code_simp
  have pre: "status_out fleet_env (path repo_a) = Some (0, conflicted_stream)
      \<and> (\<forall>l \<in> set conflicted_stream. \<not> raises l)
      \<and> (\<not> True \<or> fst (fetch_all_out fleet_env (path repo_a)))"
    using ok by (simp add: fleet_env_def)
  have pos: "(0::int) < 1" by simp
  show ?thesis
    using unmerged_entries_make_dirty [of "last conflicted_stream" info_init fleet_env repo_a
        conflicted_stream True, unfolded Let_def n] pre shape pos
    by blast
qed

subsection \<open>The lines that raise\<close>

text \<open>
  A \<open># branch.ab\<close> line is parsed only when \<open>line.split()\<close> has three fields; its
  second field is then \<open>branch.ab\<close>, on which \<open>int()\<close> raises. So such a line raises
  when it has three fields and is skipped otherwise, and the only other line that raises
  is a changed entry shorter than four characters.
\<close>

lemma startswith_append: "startswith s p \<Longrightarrow> \<exists>r. s = p @ r"
  unfolding startswith_def by (metis append_take_drop_id)

lemma split_ws_branch_ab:
  assumes "startswith line ''# branch.ab ''"
  shows "\<exists>rest. split_ws line = ''#'' # ''branch.ab'' # rest"
proof -
  obtain r where line: "line = ''# branch.ab '' @ r"
    using startswith_append [OF assms] by blast
  have sp: "\<not> py_isspace CHR ''#''" "py_isspace CHR '' ''" "\<not> py_isspace CHR ''b''"
    "\<not> py_isspace CHR ''r''" "\<not> py_isspace CHR ''a''" "\<not> py_isspace CHR ''n''"
    "\<not> py_isspace CHR ''c''" "\<not> py_isspace CHR ''h''" "\<not> py_isspace CHR ''.''"
    by (simp_all add: py_isspace_def)
  have "split_ws line = ''#'' # split_ws ('' branch.ab '' @ r)"
    unfolding line by (subst split_ws.simps) (simp add: sp)
  moreover have "split_ws ('' branch.ab '' @ r) = ''branch.ab'' # split_ws ('' '' @ r)"
    by (subst split_ws.simps) (simp add: sp)
  ultimately show ?thesis by simp
qed


lemma py_int_branch_ab: "py_int ''branch.ab'' = None"
  by code_simp

lemma raises_branch_ab:
  assumes "startswith line ''# branch.ab ''"
  shows "raises line \<longleftrightarrow> length (split_ws line) = 3"
proof -
  obtain rest where sp: "split_ws line = ''#'' # ''branch.ab'' # rest"
    using split_ws_branch_ab [OF assms] by blast
  obtain r where line: "line = ''# branch.ab '' @ r"
    using startswith_append [OF assms] by blast
  have pre: "\<not> startswith line ''# branch.head ''" "\<not> startswith line ''# branch.upstream ''"
    unfolding line by (simp_all add: startswith_simps)
  have "porcelain_line info_init line =
      (if length (split_ws line) = 3 then Inl (ValueError, info_init) else Inr info_init)"
    using assms pre sp py_int_branch_ab by (simp add: porcelain_line_def Let_def)
  then show ?thesis by (simp add: raises_def)
qed

lemma raises_changed:
  assumes "changed_entry line"
  shows "raises line \<longleftrightarrow> length line < 4"
proof -
  have pre: "\<not> startswith line ''# branch.head ''" "\<not> startswith line ''# branch.upstream ''"
    "\<not> startswith line ''# branch.ab ''" "startswith line ''1 '' \<or> startswith line ''2 ''"
    using assms by (cases line; auto simp: startswith_simps changed_entry_def)+
  have two: "2 \<le> length line"
  proof -
    obtain r where "line = ''1 '' @ r \<or> line = ''2 '' @ r"
      using pre(4) startswith_append by blast
    then show ?thesis by auto
  qed
  show ?thesis
  proof (cases "length line < 4")
    case True
    then have "length line - 2 < 2" by simp
    then have "\<exists>e. porcelain_line info_init line = Inl e"
      using pre by (simp add: porcelain_line_def Let_def)
    then show ?thesis using True by (auto simp: raises_def)
  next
    case False
    then have "\<not> length line - 2 < 2" "\<not> length line \<le> 2" by simp_all
    then have "\<exists>i. porcelain_line info_init line = Inr i"
      using pre by (simp add: porcelain_line_def Let_def)
    then show ?thesis using False by (auto simp: raises_def)
  qed
qed

lemma raises_iff:
  "raises line \<longleftrightarrow>
     (startswith line ''# branch.ab '' \<and> length (split_ws line) = 3)
     \<or> (changed_entry line \<and> length line < 4)"
proof -
  consider (ab) "startswith line ''# branch.ab ''" | (ch) "changed_entry line"
    | (other) "\<not> startswith line ''# branch.ab ''" "\<not> changed_entry line"
    by blast
  then show ?thesis
  proof cases
    case ab
    then have "\<not> changed_entry line"
      by (cases line) (auto simp: startswith_simps changed_entry_def)
    then show ?thesis using ab raises_branch_ab [OF ab] by simp
  next
    case ch
    then have "\<not> startswith line ''# branch.ab ''"
      by (cases line) (auto simp: startswith_simps changed_entry_def)
    then show ?thesis using ch raises_changed [OF ch] by simp
  next
    case other
    then have "\<exists>i. porcelain_line info_init line = Inr i"
      by (simp add: porcelain_line_def changed_entry_def)
    then show ?thesis using other by (auto simp: raises_def)
  qed
qed

text \<open>
  The line \<open># branch.ab +N -M\<close> that git writes has four fields, so it is skipped and the
  ahead and behind counts of the probe keep the values they had.
\<close>

lemma branch_ab_line_skipped:
  assumes "startswith line ''# branch.ab ''" and "length (split_ws line) \<noteq> 3"
  shows "porcelain_line info line = Inr info"
proof -
  obtain r where line: "line = ''# branch.ab '' @ r"
    using startswith_append [OF assms(1)] by blast
  have pre: "\<not> startswith line ''# branch.head ''" "\<not> startswith line ''# branch.upstream ''"
    unfolding line by (simp_all add: startswith_simps)
  show ?thesis
    using assms pre by (simp add: porcelain_line_def Let_def)
qed

lemma branch_ab_example:
  "porcelain_line info_init ''# branch.ab +3 -2'' = Inr info_init"
proof -
  have "startswith ''# branch.ab +3 -2'' ''# branch.ab ''"
    by (simp add: startswith_simps)
  moreover have "length (split_ws ''# branch.ab +3 -2'') \<noteq> 3"
    by code_simp
  ultimately show ?thesis by (rule branch_ab_line_skipped)
qed

subsection \<open>The classifier\<close>

text \<open>
  C3. For every status probe result the classifier assigns the first match of: with an
  upstream, \<open>diverged\<close> when ahead and behind are both positive, \<open>ahead\<close> when only
  ahead is, \<open>behind\<close> when only behind is, \<open>clean\<close> otherwise (both are zero, as no
  count is negative); else \<open>detached\<close> when the probe names the branch \<open>(detached)\<close>;
  else \<open>no_upstream\<close> when a remote is configured; else \<open>no_remote\<close>. The rule is
  the chain \<open>classify\<close> on any record \<open>s\<close> holding the fields of a probe result, and
  when the probe is reached (no fetch was asked for, or the fetch succeeded)
  \<open>get_status\<close> copies the branch, upstream and counts of the probe result and answers
  what the chain gives on them.
\<close>

theorem classifier_first_match:
  "(remote_branch s \<noteq> [] \<longrightarrow>
       (ahead_count s > 0 \<and> behind_count s > 0 \<longrightarrow> fst (classify env s) = DIVERGED)
     \<and> (ahead_count s > 0 \<and> \<not> behind_count s > 0 \<longrightarrow> fst (classify env s) = AHEAD)
     \<and> (\<not> ahead_count s > 0 \<and> behind_count s > 0 \<longrightarrow> fst (classify env s) = BEHIND)
     \<and> (\<not> ahead_count s > 0 \<and> \<not> behind_count s > 0 \<longrightarrow> fst (classify env s) = CLEAN))
   \<and> (remote_branch s = [] \<and> branch s = ''(detached)'' \<longrightarrow> fst (classify env s) = DETACHED)
   \<and> (remote_branch s = [] \<and> branch s \<noteq> ''(detached)'' \<and> has_remotes_out env (path s)
        \<longrightarrow> fst (classify env s) = NO_UPSTREAM)
   \<and> (remote_branch s = [] \<and> branch s \<noteq> ''(detached)'' \<and> \<not> has_remotes_out env (path s)
        \<longrightarrow> fst (classify env s) = NO_REMOTE)
   \<and> (\<not> fetch_first \<or> fst (fetch_all_out env (path repo)) \<longrightarrow>
        (let info = get_status_porcelain env (path repo);
             st = fst (get_status env fetch_first repo)
         in path st = path repo
            \<and> branch st = info_branch info \<and> remote_branch st = info_remote_branch info
            \<and> ahead_count st = info_ahead info \<and> behind_count st = info_behind info
            \<and> 0 \<le> ahead_count st \<and> 0 \<le> behind_count st
            \<and> sync_status st = fst (classify env st)))"
proof -
  have rule: "(remote_branch s \<noteq> [] \<longrightarrow>
       (ahead_count s > 0 \<and> behind_count s > 0 \<longrightarrow> fst (classify env s) = DIVERGED)
     \<and> (ahead_count s > 0 \<and> \<not> behind_count s > 0 \<longrightarrow> fst (classify env s) = AHEAD)
     \<and> (\<not> ahead_count s > 0 \<and> behind_count s > 0 \<longrightarrow> fst (classify env s) = BEHIND)
     \<and> (\<not> ahead_count s > 0 \<and> \<not> behind_count s > 0 \<longrightarrow> fst (classify env s) = CLEAN))
   \<and> (remote_branch s = [] \<and> branch s = ''(detached)'' \<longrightarrow> fst (classify env s) = DETACHED)
   \<and> (remote_branch s = [] \<and> branch s \<noteq> ''(detached)'' \<and> has_remotes_out env (path s)
        \<longrightarrow> fst (classify env s) = NO_UPSTREAM)
   \<and> (remote_branch s = [] \<and> branch s \<noteq> ''(detached)'' \<and> \<not> has_remotes_out env (path s)
        \<longrightarrow> fst (classify env s) = NO_REMOTE)"
    by (simp add: classify_def)
  have nn: "0 \<le> info_ahead (get_status_porcelain env (path repo))"
    "0 \<le> info_behind (get_status_porcelain env (path repo))"
    using get_status_porcelain_nonneg [of env "path repo"] by simp_all
  have applied: "\<not> (fetch_first \<and> \<not> fst (fetch_all_out env (path repo))) \<Longrightarrow>
        (let info = get_status_porcelain env (path repo);
             st = fst (get_status env fetch_first repo)
         in path st = path repo
            \<and> branch st = info_branch info \<and> remote_branch st = info_remote_branch info
            \<and> ahead_count st = info_ahead info \<and> behind_count st = info_behind info
            \<and> 0 \<le> ahead_count st \<and> 0 \<le> behind_count st
            \<and> sync_status st = fst (classify env st))"
    using nn
    by (simp add: get_status_def Let_def status_init_def classify_def split: prod.splits)
  show ?thesis
    using rule applied by blast
qed

theorem classifier_first_match_witness:
  "fst (classify fleet_env (status_of repo_a CLEAN 1 2)) = DIVERGED
   \<and> fst (classify fleet_env (status_of repo_a CLEAN 2 0)) = AHEAD
   \<and> fst (classify fleet_env (status_of repo_a CLEAN 0 3)) = BEHIND
   \<and> sync_status (fst (get_status fleet_env True repo_a)) = CLEAN
   \<and> sync_status (fst (get_status (fleet_env\<lparr>status_out := (\<lambda>p. Some (0, [''# branch.head (detached)'']))\<rparr>)
                          False repo_a)) = DETACHED
   \<and> sync_status (fst (get_status (fleet_env\<lparr>status_out := (\<lambda>p. Some (0, [''# branch.head main'']))\<rparr>)
                          False repo_a)) = NO_UPSTREAM"
proof -
  have p1: "get_status_porcelain fleet_env (path repo_a)
      = info_init\<lparr>info_branch := ''main'', info_remote_branch := ''origin/main'',
                   info_staged_count := 1, info_unstaged_count := 1\<rparr>"
    by (simp add: get_status_porcelain_def fleet_env_def conflicted_stream_def
        porcelain_line_def startswith_def info_init_def split_ws.simps py_isspace_def)
  have p2: "get_status_porcelain (fleet_env\<lparr>status_out := (\<lambda>p. Some (0, [''# branch.head (detached)'']))\<rparr>)
      (path repo_a) = info_init\<lparr>info_branch := ''(detached)''\<rparr>"
    by (simp add: get_status_porcelain_def porcelain_line_def startswith_def info_init_def)
  have p3: "get_status_porcelain (fleet_env\<lparr>status_out := (\<lambda>p. Some (0, [''# branch.head main'']))\<rparr>)
      (path repo_a) = info_init\<lparr>info_branch := ''main''\<rparr>"
    by (simp add: get_status_porcelain_def porcelain_line_def startswith_def info_init_def)
  have fetched: "fst (fetch_all_out fleet_env (path repo_a))"
    by (simp add: fleet_env_def)
  have r0: "fst (classify fleet_env (status_of repo_a CLEAN 1 2)) = DIVERGED"
    "fst (classify fleet_env (status_of repo_a CLEAN 2 0)) = AHEAD"
    "fst (classify fleet_env (status_of repo_a CLEAN 0 3)) = BEHIND"
    using classifier_first_match [where s = "status_of repo_a CLEAN 1 2" and env = fleet_env
        and fetch_first = True and repo = repo_a]
      classifier_first_match [where s = "status_of repo_a CLEAN 2 0" and env = fleet_env
        and fetch_first = True and repo = repo_a]
      classifier_first_match [where s = "status_of repo_a CLEAN 0 3" and env = fleet_env
        and fetch_first = True and repo = repo_a]
    by (simp_all add: status_of_def status_init_def)
  have r1: "sync_status (fst (get_status fleet_env True repo_a)) = CLEAN"
    using classifier_first_match [where s = "fst (get_status fleet_env True repo_a)"
        and env = fleet_env and fetch_first = True and repo = repo_a, unfolded Let_def p1]
      fetched
    by (simp add: info_init_def)
  have r2: "sync_status (fst (get_status
      (fleet_env\<lparr>status_out := (\<lambda>p. Some (0, [''# branch.head (detached)'']))\<rparr>)
      False repo_a)) = DETACHED"
    using classifier_first_match [where
        s = "fst (get_status
          (fleet_env\<lparr>status_out := (\<lambda>p. Some (0, [''# branch.head (detached)'']))\<rparr>)
          False repo_a)"
        and env = "fleet_env\<lparr>status_out := (\<lambda>p. Some (0, [''# branch.head (detached)'']))\<rparr>"
        and fetch_first = False and repo = repo_a, unfolded Let_def p2]
    by (simp add: info_init_def)
  have r3: "sync_status (fst (get_status
      (fleet_env\<lparr>status_out := (\<lambda>p. Some (0, [''# branch.head main'']))\<rparr>)
      False repo_a)) = NO_UPSTREAM"
    using classifier_first_match [where
        s = "fst (get_status
          (fleet_env\<lparr>status_out := (\<lambda>p. Some (0, [''# branch.head main'']))\<rparr>)
          False repo_a)"
        and env = "fleet_env\<lparr>status_out := (\<lambda>p. Some (0, [''# branch.head main'']))\<rparr>"
        and fetch_first = False and repo = repo_a, unfolded Let_def p3]
    by (simp add: info_init_def fleet_env_def)
  show ?thesis using r0 r1 r2 r3 by simp
qed

subsection \<open>The counts of the probe\<close>

text \<open>
  No line changes \<open>ahead\<close> or \<open>behind\<close>: a \<open># branch.ab\<close> line of three fields
  raises at \<open>int("branch.ab")\<close> before it stores anything, and one of any other number
  of fields is skipped. So the probe result always has both counts at zero, and the
  classifier, applied to it, never answers \<open>ahead\<close>, \<open>behind\<close> or \<open>diverged\<close>.
\<close>

lemma porcelain_line_keeps_ab:
  assumes "porcelain_line info line = Inr info' \<or> porcelain_line info line = Inl (e, info')"
  shows "info_ahead info' = info_ahead info \<and> info_behind info' = info_behind info"
proof (cases "startswith line ''# branch.ab ''")
  case True
  then obtain rest where sp: "split_ws line = ''#'' # ''branch.ab'' # rest"
    using split_ws_branch_ab by blast
  obtain r where line: "line = ''# branch.ab '' @ r"
    using startswith_append [OF True] by blast
  have pre: "\<not> startswith line ''# branch.head ''" "\<not> startswith line ''# branch.upstream ''"
    unfolding line by (simp_all add: startswith_simps)
  have "porcelain_line info line =
      (if length (split_ws line) = 3 then Inl (ValueError, info) else Inr info)"
    using True pre sp py_int_branch_ab by (simp add: porcelain_line_def Let_def)
  then show ?thesis using assms by (auto split: if_splits)
next
  case False
  then show ?thesis
    using assms
    by (auto simp: porcelain_line_def Let_def split: if_splits)
qed

lemma porcelain_lines_keeps_ab:
  assumes "porcelain_lines info lines = Inr info' \<or> porcelain_lines info lines = Inl (e, info')"
  shows "info_ahead info' = info_ahead info \<and> info_behind info' = info_behind info"
  using assms
proof (induction lines arbitrary: info)
  case Nil
  then show ?case by auto
next
  case (Cons line rest)
  show ?case
  proof (cases "porcelain_line info line")
    case (Inl a)
    then have "porcelain_line info line = Inl (e, info')"
      using Cons.prems by auto
    then show ?thesis
      using porcelain_line_keeps_ab by blast
  next
    case (Inr info1)
    then have k: "info_ahead info1 = info_ahead info \<and> info_behind info1 = info_behind info"
      using porcelain_line_keeps_ab by blast
    have "porcelain_lines info1 rest = Inr info' \<or> porcelain_lines info1 rest = Inl (e, info')"
      using Cons.prems Inr by simp
    then show ?thesis
      using Cons.IH [of info1] k by simp
  qed
qed

lemma probe_never_counts:
  "info_ahead (get_status_porcelain env p) = 0 \<and> info_behind (get_status_porcelain env p) = 0"
proof (cases "status_out env p")
  case None
  then show ?thesis by (simp add: get_status_porcelain_def info_init_def)
next
  case (Some run)
  obtain returncode lines where run: "run = (returncode, lines)" by (cases run)
  show ?thesis
  proof (cases "returncode = 0")
    case False
    then show ?thesis using Some run by (simp add: get_status_porcelain_def info_init_def)
  next
    case True
    show ?thesis
    proof (cases "porcelain_lines info_init lines")
      case (Inl a)
      obtain e info' where a: "a = (e, info')" by (cases a)
      have "get_status_porcelain env p = info'"
        using Some run True Inl a by (simp add: get_status_porcelain_def)
      then show ?thesis
        using porcelain_lines_keeps_ab [of info_init lines info' e] Inl a
        by (simp add: info_init_def)
    next
      case (Inr info')
      have "get_status_porcelain env p = info'"
        using Some run True Inr by (simp add: get_status_porcelain_def)
      then show ?thesis
        using porcelain_lines_keeps_ab [of info_init lines info'] Inr
        by (simp add: info_init_def)
    qed
  qed
qed

lemma get_status_never_ahead:
  "sync_status (fst (get_status env fetch_first repo))
     \<in> {CLEAN, DETACHED, NO_UPSTREAM, NO_REMOTE, ERROR}"
  using probe_never_counts [of env "path repo"]
  by (simp add: get_status_def Let_def status_init_def classify_def split: prod.splits)

text \<open>
  On what git prints for a repository two commits ahead of its upstream, the probe result
  has the branch and the upstream and both counts at zero, and the status is \<open>clean\<close>.
\<close>

lemma ahead_stream_classified_clean:
  "get_status_porcelain ahead_env (path repo_a)
     = info_init\<lparr>info_branch := ''main'', info_remote_branch := ''origin/main''\<rparr>
   \<and> remote_branch (fst (get_status ahead_env False repo_a)) = ''origin/main''
   \<and> ahead_count (fst (get_status ahead_env False repo_a)) = 0
   \<and> behind_count (fst (get_status ahead_env False repo_a)) = 0
   \<and> sync_status (fst (get_status ahead_env False repo_a)) = CLEAN"
proof -
  have probe: "get_status_porcelain ahead_env (path repo_a)
      = info_init\<lparr>info_branch := ''main'', info_remote_branch := ''origin/main''\<rparr>"
    by (simp add: get_status_porcelain_def ahead_env_def ahead_stream_def
        porcelain_line_def startswith_def info_init_def split_ws.simps py_isspace_def)
  show ?thesis
    using probe
    by (simp add: get_status_def Let_def status_init_def classify_def info_init_def
        split: prod.splits)
qed

subsection \<open>Selecting the repositories to pull\<close>

lemma smart_partition_eq:
  "smart_partition zs safe needs_check =
     (safe @ map fst (filter (\<lambda>(repo, status). needs_pull status \<and> \<not> has_conflict_risk status) zs),
      needs_check @ map fst (filter (\<lambda>(repo, status). needs_pull status \<and> has_conflict_risk status) zs))"
  by (induction zs safe needs_check rule: smart_partition.induct) auto

lemma mset_completion:
  assumes "completes_each_once done"
  shows "mset (map (\<lambda>i. xs ! i) (done (length xs))) = mset xs"
proof -
  have "mset (map (\<lambda>i. xs ! i) (done (length xs)))
      = image_mset (\<lambda>i. xs ! i) (mset (done (length xs)))"
    by simp
  also have "\<dots> = image_mset (\<lambda>i. xs ! i) (mset [0..<length xs])"
    using assms by (simp add: completes_each_once_def)
  also have "\<dots> = mset (map (\<lambda>i. xs ! i) [0..<length xs])"
    by simp
  also have "\<dots> = mset xs"
    by (simp add: map_nth)
  finally show ?thesis .
qed

lemma mset_filter_fst:
  "mset (filter Q (map fst (filter B zs))) = mset (map fst (filter (\<lambda>z. B z \<and> Q (fst z)) zs))"
  by (induction zs) auto

lemma mset_filter_split:
  assumes "\<And>z. A z \<Longrightarrow> \<not> C z"
  shows "mset (map fst (filter A zs)) + mset (map fst (filter C zs))
    = mset (map fst (filter (\<lambda>z. A z \<or> C z) zs))"
  using assms by (induction zs) auto

lemma smart_selection:
  assumes "mset finished = mset (map fst (filter (\<lambda>(repo, status). needs_pull status \<and> has_conflict_risk status) zs))"
  shows "mset (map fst (filter (\<lambda>(repo, status). needs_pull status \<and> \<not> has_conflict_risk status) zs)
               @ filter (\<lambda>repo. \<not> fst (has_file_conflicts env repo)) finished)
    = mset (map fst (filter (\<lambda>(repo, status). pull_condition env SMART repo status) zs))"
proof -
  let ?A = "\<lambda>z. needs_pull (snd z) \<and> \<not> has_conflict_risk (snd z)"
  let ?B = "\<lambda>z. needs_pull (snd z) \<and> has_conflict_risk (snd z)"
  let ?Q = "\<lambda>repo. \<not> fst (has_file_conflicts env repo)"
  have A: "(\<lambda>(repo, status). needs_pull status \<and> \<not> has_conflict_risk status) = ?A"
    and B: "(\<lambda>(repo, status). needs_pull status \<and> has_conflict_risk status) = ?B"
    and P: "(\<lambda>(repo, status). pull_condition env SMART repo status)
        = (\<lambda>z. ?A z \<or> (?B z \<and> ?Q (fst z)))"
    by (auto simp: fun_eq_iff pull_condition_def)
  have "mset (filter ?Q finished) = filter_mset ?Q (mset finished)"
    by simp
  also have "\<dots> = filter_mset ?Q (mset (map fst (filter ?B zs)))"
    using assms unfolding B by (simp only:)
  also have "\<dots> = mset (filter ?Q (map fst (filter ?B zs)))"
    by simp
  also have "\<dots> = mset (map fst (filter (\<lambda>z. ?B z \<and> ?Q (fst z)) zs))"
    by (rule mset_filter_fst)
  finally have fin: "mset (filter ?Q finished)
      = mset (map fst (filter (\<lambda>z. ?B z \<and> ?Q (fst z)) zs))" .
  have "mset (map fst (filter ?A zs)) + mset (map fst (filter (\<lambda>z. ?B z \<and> ?Q (fst z)) zs))
      = mset (map fst (filter (\<lambda>z. ?A z \<or> (?B z \<and> ?Q (fst z))) zs))"
    by (rule mset_filter_split) simp
  then show ?thesis
    using fin unfolding A P by simp
qed

lemma repos_to_pull_selects:
  assumes scan: "statuses_or_scan env self (status_done sched) sequential statuses = Inr (sts, ev0)"
    and once: "completes_each_once (check_done sched)"
    and width: "0 < max_workers self"
  shows "\<exists>sel ev. repos_to_pull env self sched True sequential mode statuses = Inr (sel, ev)
    \<and> mset sel = mset (map fst (filter (\<lambda>(repo, status). pull_condition env mode repo status)
                                   (zip (repositories self) sts)))"
proof (cases mode)
  case FORCE
  then show ?thesis
    using scan by (simp add: repos_to_pull_def discover_repositories_def pull_condition_def)
next
  case SAFE
  then show ?thesis
    using scan by (simp add: repos_to_pull_def discover_repositories_def pull_condition_def)
next
  case SMART
  let ?zs = "zip (repositories self) sts"
  let ?safe = "map fst (filter (\<lambda>(repo, status). needs_pull status \<and> \<not> has_conflict_risk status) ?zs)"
  let ?nc = "map fst (filter (\<lambda>(repo, status). needs_pull status \<and> has_conflict_risk status) ?zs)"
  let ?Q = "\<lambda>repo. \<not> fst (has_file_conflicts env repo)"
  have part: "smart_partition ?zs [] [] = (?safe, ?nc)"
    by (simp add: smart_partition_eq)
  have target: "\<And>finished. mset finished = mset ?nc \<Longrightarrow>
      mset (?safe @ filter ?Q finished)
      = mset (map fst (filter (\<lambda>(repo, status). pull_condition env SMART repo status) ?zs))"
    by (rule smart_selection)
  show ?thesis
  proof (cases "?nc = []")
    case True
    have "mset (?safe @ filter ?Q []) 
      = mset (map fst (filter (\<lambda>(repo, status). pull_condition env SMART repo status) ?zs))"
      using target [of "[]"] True by simp
    then show ?thesis
      using scan SMART part True
      by (simp add: repos_to_pull_def discover_repositories_def)
  next
    case False
    show ?thesis
    proof (cases "sequential \<or> length ?nc \<le> 1")
      case True
      have "mset (?safe @ filter ?Q ?nc)
        = mset (map fst (filter (\<lambda>(repo, status). pull_condition env SMART repo status) ?zs))"
        using target [of ?nc] by simp
      then show ?thesis
        using scan SMART part False True
        by (simp add: repos_to_pull_def discover_repositories_def)
    next
      case conc: False
      let ?fin = "map (\<lambda>i. ?nc ! i) (check_done sched (length ?nc))"
      have "mset ?fin = mset ?nc"
        using mset_completion [OF once] .
      then have "mset (?safe @ filter ?Q ?fin)
        = mset (map fst (filter (\<lambda>(repo, status). pull_condition env SMART repo status) ?zs))"
        by (rule target)
      then show ?thesis
        using scan SMART part False conc width
        by (simp add: repos_to_pull_def discover_repositories_def Let_def)
    qed
  qed
qed

lemma mset_map_cong: "mset ys = mset xs \<Longrightarrow> mset (map f ys) = mset (map f xs)"
  by (metis mset_map)

lemma execute_parallel_returns:
  assumes "completes_each_once done" and "0 < max_workers self"
  shows "\<exists>rs ev. execute_parallel self done op (Some repos) sequential = Inr (rs, ev)
    \<and> mset rs = mset (map (\<lambda>repo. fst (op repo)) repos)"
proof (cases "sequential \<or> length repos \<le> 1")
  case True
  then show ?thesis by (simp add: execute_parallel_def)
next
  case False
  have "mset (map (\<lambda>repo. fst (op repo)) (map (\<lambda>i. repos ! i) (done (length repos))))
      = mset (map (\<lambda>repo. fst (op repo)) repos)"
    by (rule mset_map_cong [OF mset_completion [OF assms(1)]])
  then show ?thesis
    using False assms(2) by (simp add: execute_parallel_def Let_def del: map_map)
qed

lemma pull_path: "path (fst (pull env repo)) = path repo"
  by (simp add: pull_def split: prod.splits)

lemma push_path: "path (fst (push env repo)) = path repo"
  by (simp add: push_def split: prod.splits)

lemma would_path: "path (would op msg repo) = path repo"
  by (simp add: would_def)

text \<open>
  C1. With \<open>only_behind\<close> set, whatever statuses the call pairs with the repositories
  (those passed in, or those it scans), \<open>pull_all\<close> returns, and the repositories it
  selects are, counted with multiplicity, those whose pair satisfies the condition of the
  mode: \<open>needs_pull\<close> in force mode; \<open>needs_pull\<close> without conflict risk in safe mode; in
  smart mode \<open>needs_pull\<close> and either no conflict risk, or conflict risk and a file-level
  check that finds no conflict. The results of \<open>pull_all\<close>, dry or not, carry the paths
  of exactly these repositories. A repository at risk whose merge-base lookup fails does
  not satisfy the smart condition.
\<close>

theorem pull_set_by_mode:
  assumes "statuses_or_scan env self (status_done sched) sequential statuses = Inr (sts, ev0)"
    and "completes_each_once (check_done sched)"
    and "completes_each_once (exec_done sched)"
    and "0 < max_workers self"
  shows "\<exists>sel ev results ev'.
      repos_to_pull env self sched True sequential mode statuses = Inr (sel, ev)
    \<and> mset sel = mset (map fst (filter (\<lambda>(repo, status). pull_condition env mode repo status)
                                   (zip (repositories self) sts)))
    \<and> set sel = {repo. \<exists>status. (repo, status) \<in> set (zip (repositories self) sts)
                                 \<and> pull_condition env mode repo status}
    \<and> pull_all env self sched True sequential dry_run mode statuses = Inr (results, ev')
    \<and> mset (map path results) = mset (map path sel)
    \<and> (\<forall>(repo, status) \<in> set (zip (repositories self) sts).
          has_conflict_risk status \<and> merge_base_out env (path repo) = None
          \<longrightarrow> \<not> pull_condition env SMART repo status)"
proof -
  obtain sel ev where sel: "repos_to_pull env self sched True sequential mode statuses = Inr (sel, ev)"
    and ms: "mset sel = mset (map fst (filter (\<lambda>(repo, status). pull_condition env mode repo status)
                                   (zip (repositories self) sts)))"
    using repos_to_pull_selects [OF assms(1,2,4)] by blast
  have "set sel = set (map fst (filter (\<lambda>(repo, status). pull_condition env mode repo status)
                                   (zip (repositories self) sts)))"
    using ms by (rule mset_eq_setD)
  then have st: "set sel = {repo. \<exists>status. (repo, status) \<in> set (zip (repositories self) sts)
                                 \<and> pull_condition env mode repo status}"
    by force
  obtain rs evx where run: "execute_parallel self (exec_done sched) (pull env) (Some sel) sequential
        = Inr (rs, evx)"
    and rs: "mset rs = mset (map (\<lambda>repo. fst (pull env repo)) sel)"
    using execute_parallel_returns [OF assms(3,4)] by blast
  have "mset (map path rs) = mset (map path (map (\<lambda>repo. fst (pull env repo)) sel))"
    using rs by (rule mset_map_cong)
  also have "map path (map (\<lambda>repo. fst (pull env repo)) sel) = map path sel"
    by (simp add: pull_path)
  finally have rp: "mset (map path rs) = mset (map path sel)" .
  have res: "\<exists>results ev'. pull_all env self sched True sequential dry_run mode statuses
        = Inr (results, ev') \<and> mset (map path results) = mset (map path sel)"
  proof (cases dry_run)
    case True
    have "map path (map (would ''pull'' ''Would pull (dry-run)'') sel) = map path sel"
      by (simp add: would_path)
    then have "mset (map path (map (would ''pull'' ''Would pull (dry-run)'') sel))
        = mset (map path sel)"
      by (simp only:)
    moreover have "pull_all env self sched True sequential dry_run mode statuses
        = Inr (map (would ''pull'' ''Would pull (dry-run)'') sel, ev)"
      using sel True by (simp add: pull_all_def)
    ultimately show ?thesis by blast
  next
    case False
    then show ?thesis
      using sel run rp by (simp add: pull_all_def)
  qed
  have mb: "\<forall>(repo, status) \<in> set (zip (repositories self) sts).
          has_conflict_risk status \<and> merge_base_out env (path repo) = None
          \<longrightarrow> \<not> pull_condition env SMART repo status"
    by (auto simp: pull_condition_def has_file_conflicts_def)
  show ?thesis
    using sel ms st res mb by blast
qed

lemma reversed_completion_once: "completes_each_once reversed_completion"
  by (simp add: completes_each_once_def reversed_completion_def)

lemma fleet_paths_differ:
  "path repo_a \<noteq> path repo_b" "path repo_a \<noteq> path repo_c" "path repo_b \<noteq> path repo_c"
  "repo_a \<noteq> repo_b" "repo_a \<noteq> repo_c" "repo_b \<noteq> repo_c"
  by (simp_all add: repo_a_def repo_b_def repo_c_def GitRepository_init_def)

lemma fleet_conflicts:
  "\<not> fst (has_file_conflicts fleet_env repo_a)"
  "\<not> fst (has_file_conflicts fleet_env repo_b)"
  "fst (has_file_conflicts fleet_env repo_c)"
  using fleet_paths_differ
  by (simp_all add: has_file_conflicts_def fleet_env_def upstream_ref_def Let_def)

lemma fleet_status_flags:
  "needs_pull (status_of repo BEHIND a b)" "\<not> has_conflict_risk (status_of repo BEHIND a b)"
  "needs_pull (status_of repo DIVERGED a b)" "has_conflict_risk (status_of repo DIVERGED a b)"
  "needs_push (status_of repo DIVERGED a b)" "\<not> needs_push (status_of repo BEHIND a b)"
  by (simp_all add: status_of_def status_init_def needs_pull_def needs_push_def
      has_conflict_risk_def is_diverged_def working_tree_status_def)

theorem pull_set_by_mode_witness:
  "\<exists>sel ev results ev'.
      repos_to_pull fleet_env fleet reversed_schedule True False SMART (Some fleet_statuses)
        = Inr (sel, ev)
    \<and> set sel = {repo_a, repo_b}
    \<and> pull_all fleet_env fleet reversed_schedule True False False SMART (Some fleet_statuses)
        = Inr (results, ev')
    \<and> mset (map path results) = mset (map path sel)"
proof -
  have scan: "statuses_or_scan fleet_env fleet (status_done reversed_schedule) False
      (Some fleet_statuses) = Inr (fleet_statuses, [])"
    by (simp add: statuses_or_scan_def)
  have once: "completes_each_once (check_done reversed_schedule)"
    "completes_each_once (exec_done reversed_schedule)"
    using reversed_completion_once by (simp_all add: reversed_schedule_def)
  have width: "0 < max_workers fleet"
    by (simp add: fleet_def)
  have chosen: "{repo. \<exists>status. (repo, status) \<in> set (zip (repositories fleet) fleet_statuses)
        \<and> pull_condition fleet_env SMART repo status} = {repo_a, repo_b}"
    using fleet_conflicts fleet_status_flags
    by (auto simp: fleet_def fleet_statuses_def pull_condition_def)
  show ?thesis
    using pull_set_by_mode [OF scan once width, of SMART False] unfolding chosen
    by blast
qed

subsection \<open>What a run records: no pull and no push before the execution stage\<close>

lemma get_status_events: "e \<in> set (snd (get_status env fetch_first repo)) \<Longrightarrow> \<not> pull_or_push e"
  by (auto simp: get_status_def Let_def classify_def split: prod.splits if_splits)

lemma has_file_conflicts_events:
  "e \<in> set (snd (has_file_conflicts env repo)) \<Longrightarrow> \<not> pull_or_push e"
  by (auto simp: has_file_conflicts_def Let_def split: option.splits)

lemma execute_parallel_total:
  assumes "0 < max_workers self"
  shows "\<exists>rs ev. execute_parallel self done op repos sequential = Inr (rs, ev)"
  using assms by (simp add: execute_parallel_def Let_def)

lemma execute_parallel_events:
  assumes "execute_parallel self done op repos sequential = Inr (rs, ev)"
    and "\<And>repo e. e \<in> set (snd (op repo)) \<Longrightarrow> P e"
    and "\<And>n. P (Pool n)"
  shows "\<forall>e \<in> set ev. P e"
  using assms
  by (auto simp: execute_parallel_def Let_def split: if_splits)

lemma statuses_or_scan_total:
  assumes "0 < max_workers self"
  shows "\<exists>sts ev. statuses_or_scan env self done sequential statuses = Inr (sts, ev)"
  using execute_parallel_total [OF assms]
  by (cases statuses) (simp_all add: statuses_or_scan_def get_all_status_def)

lemma statuses_or_scan_events:
  assumes "statuses_or_scan env self done sequential statuses = Inr (sts, ev)"
  shows "\<forall>e \<in> set ev. \<not> pull_or_push e"
proof (cases statuses)
  case None
  then have "execute_parallel self done (get_status env True) None sequential = Inr (sts, ev)"
    using assms by (simp add: statuses_or_scan_def get_all_status_def)
  then show ?thesis
    by (rule execute_parallel_events) (auto dest: get_status_events)
next
  case (Some a)
  then show ?thesis using assms by (simp add: statuses_or_scan_def)
qed

lemma repos_to_pull_total:
  assumes "0 < max_workers self"
  shows "\<exists>sel ev. repos_to_pull env self sched only_behind sequential mode statuses = Inr (sel, ev)"
proof (cases only_behind)
  case False
  then show ?thesis by (simp add: repos_to_pull_def)
next
  case True
  obtain sts ev0 where
    "statuses_or_scan env self (status_done sched) sequential statuses = Inr (sts, ev0)"
    using statuses_or_scan_total [OF assms] by blast
  then show ?thesis
    using True assms
    by (simp add: repos_to_pull_def Let_def split: prod.splits)
qed

lemma repos_to_pull_events:
  assumes "repos_to_pull env self sched only_behind sequential mode statuses = Inr (sel, ev)"
  shows "\<forall>e \<in> set ev. \<not> pull_or_push e"
proof (cases only_behind)
  case False
  then show ?thesis using assms by (simp add: repos_to_pull_def)
next
  case True
  obtain sts ev0 where
    scan: "statuses_or_scan env self (status_done sched) sequential statuses = Inr (sts, ev0)"
    using assms True
    by (cases "statuses_or_scan env self (status_done sched) sequential statuses")
       (auto simp: repos_to_pull_def)
  have ev0: "\<forall>e \<in> set ev0. \<not> pull_or_push e"
    using statuses_or_scan_events [OF scan] .
  show ?thesis
    using assms True scan ev0
    by (auto simp: repos_to_pull_def Let_def split: if_splits prod.splits
        dest: has_file_conflicts_events)
qed

lemma repos_to_push_total:
  assumes "0 < max_workers self"
  shows "\<exists>sel ev. repos_to_push env self sched only_ahead sequential statuses = Inr (sel, ev)"
proof (cases only_ahead)
  case False
  then show ?thesis by (simp add: repos_to_push_def)
next
  case True
  obtain sts ev0 where
    "statuses_or_scan env self (status_done sched) sequential statuses = Inr (sts, ev0)"
    using statuses_or_scan_total [OF assms] by blast
  then show ?thesis
    using True by (simp add: repos_to_push_def)
qed

lemma repos_to_push_events:
  assumes "repos_to_push env self sched only_ahead sequential statuses = Inr (sel, ev)"
  shows "\<forall>e \<in> set ev. \<not> pull_or_push e"
proof (cases only_ahead)
  case False
  then show ?thesis using assms by (simp add: repos_to_push_def)
next
  case True
  obtain sts ev0 where
    scan: "statuses_or_scan env self (status_done sched) sequential statuses = Inr (sts, ev0)"
    using assms True
    by (cases "statuses_or_scan env self (status_done sched) sequential statuses")
       (auto simp: repos_to_push_def)
  show ?thesis
    using assms True scan statuses_or_scan_events [OF scan]
    by (auto simp: repos_to_push_def)
qed

text \<open>
  C8. With \<open>dry_run\<close> set, \<open>pull_all\<close> and \<open>push_all\<close> return: the selection is the one
  the call computes before it looks at \<open>dry_run\<close>, the result list is the list of
  synthetic results of the selected repositories, one each and in the same order, every
  one successful with the would-pull (would-push) message, and no event of the run is a
  pull or a push of the adapter. A run without \<open>dry_run\<close> on the same inputs returns
  results for the same repositories.
\<close>

theorem dry_run_is_synthetic:
  assumes "0 < max_workers self"
  shows
    "(\<exists>sel ev.
        repos_to_pull env self sched only_behind sequential mode statuses = Inr (sel, ev)
      \<and> pull_all env self sched only_behind sequential True mode statuses
          = Inr (map (would ''pull'' ''Would pull (dry-run)'') sel, ev)
      \<and> map path (map (would ''pull'' ''Would pull (dry-run)'') sel) = map path sel
      \<and> (\<forall>r \<in> set (map (would ''pull'' ''Would pull (dry-run)'') sel).
            success r \<and> message r = ''Would pull (dry-run)'' \<and> operation r = ''pull'')
      \<and> (\<forall>e \<in> set ev. \<not> pull_or_push e)
      \<and> (completes_each_once (exec_done sched) \<longrightarrow>
           (\<exists>results ev'.
              pull_all env self sched only_behind sequential False mode statuses
                = Inr (results, ev')
            \<and> mset (map path results) = mset (map path sel))))
   \<and> (\<exists>sel ev.
        repos_to_push env self sched only_ahead sequential statuses = Inr (sel, ev)
      \<and> push_all env self sched only_ahead sequential True statuses
          = Inr (map (would ''push'' ''Would push (dry-run)'') sel, ev)
      \<and> map path (map (would ''push'' ''Would push (dry-run)'') sel) = map path sel
      \<and> (\<forall>r \<in> set (map (would ''push'' ''Would push (dry-run)'') sel).
            success r \<and> message r = ''Would push (dry-run)'' \<and> operation r = ''push'')
      \<and> (\<forall>e \<in> set ev. \<not> pull_or_push e)
      \<and> (completes_each_once (exec_done sched) \<longrightarrow>
           (\<exists>results ev'.
              push_all env self sched only_ahead sequential False statuses
                = Inr (results, ev')
            \<and> mset (map path results) = mset (map path sel))))"
proof (rule conjI)
  obtain sel ev where
    sel: "repos_to_pull env self sched only_behind sequential mode statuses = Inr (sel, ev)"
    using repos_to_pull_total [OF assms] by blast
  have dry: "pull_all env self sched only_behind sequential True mode statuses
          = Inr (map (would ''pull'' ''Would pull (dry-run)'') sel, ev)"
    using sel by (simp add: pull_all_def)
  have paths: "map path (map (would ''pull'' ''Would pull (dry-run)'') sel) = map path sel"
    by (simp add: would_path)
  have each: "\<forall>r \<in> set (map (would ''pull'' ''Would pull (dry-run)'') sel).
            success r \<and> message r = ''Would pull (dry-run)'' \<and> operation r = ''pull''"
    by (simp add: would_def)
  have quiet: "\<forall>e \<in> set ev. \<not> pull_or_push e"
    using repos_to_pull_events [OF sel] .
  have real: "completes_each_once (exec_done sched) \<longrightarrow>
           (\<exists>results ev'.
              pull_all env self sched only_behind sequential False mode statuses
                = Inr (results, ev')
            \<and> mset (map path results) = mset (map path sel))"
  proof
    assume once: "completes_each_once (exec_done sched)"
    obtain rs evx where
      run: "execute_parallel self (exec_done sched) (pull env) (Some sel) sequential
        = Inr (rs, evx)"
      and rs: "mset rs = mset (map (\<lambda>repo. fst (pull env repo)) sel)"
      using execute_parallel_returns [OF once assms] by blast
    have "mset (map path rs) = mset (map path (map (\<lambda>repo. fst (pull env repo)) sel))"
      using rs by (rule mset_map_cong)
    also have "map path (map (\<lambda>repo. fst (pull env repo)) sel) = map path sel"
      by (simp add: pull_path)
    finally have "mset (map path rs) = mset (map path sel)" .
    moreover have "pull_all env self sched only_behind sequential False mode statuses
        = Inr (rs, ev @ evx)"
      using sel run by (simp add: pull_all_def)
    ultimately show "\<exists>results ev'.
              pull_all env self sched only_behind sequential False mode statuses
                = Inr (results, ev')
            \<and> mset (map path results) = mset (map path sel)"
      by blast
  qed
  show "\<exists>sel ev.
        repos_to_pull env self sched only_behind sequential mode statuses = Inr (sel, ev)
      \<and> pull_all env self sched only_behind sequential True mode statuses
          = Inr (map (would ''pull'' ''Would pull (dry-run)'') sel, ev)
      \<and> map path (map (would ''pull'' ''Would pull (dry-run)'') sel) = map path sel
      \<and> (\<forall>r \<in> set (map (would ''pull'' ''Would pull (dry-run)'') sel).
            success r \<and> message r = ''Would pull (dry-run)'' \<and> operation r = ''pull'')
      \<and> (\<forall>e \<in> set ev. \<not> pull_or_push e)
      \<and> (completes_each_once (exec_done sched) \<longrightarrow>
           (\<exists>results ev'.
              pull_all env self sched only_behind sequential False mode statuses
                = Inr (results, ev')
            \<and> mset (map path results) = mset (map path sel)))"
    using sel dry paths each quiet real by blast
next
  obtain sel ev where
    sel: "repos_to_push env self sched only_ahead sequential statuses = Inr (sel, ev)"
    using repos_to_push_total [OF assms] by blast
  have dry: "push_all env self sched only_ahead sequential True statuses
          = Inr (map (would ''push'' ''Would push (dry-run)'') sel, ev)"
    using sel by (simp add: push_all_def)
  have paths: "map path (map (would ''push'' ''Would push (dry-run)'') sel) = map path sel"
    by (simp add: would_path)
  have each: "\<forall>r \<in> set (map (would ''push'' ''Would push (dry-run)'') sel).
            success r \<and> message r = ''Would push (dry-run)'' \<and> operation r = ''push''"
    by (simp add: would_def)
  have quiet: "\<forall>e \<in> set ev. \<not> pull_or_push e"
    using repos_to_push_events [OF sel] .
  have real: "completes_each_once (exec_done sched) \<longrightarrow>
           (\<exists>results ev'.
              push_all env self sched only_ahead sequential False statuses
                = Inr (results, ev')
            \<and> mset (map path results) = mset (map path sel))"
  proof
    assume once: "completes_each_once (exec_done sched)"
    obtain rs evx where
      run: "execute_parallel self (exec_done sched) (push env) (Some sel) sequential
        = Inr (rs, evx)"
      and rs: "mset rs = mset (map (\<lambda>repo. fst (push env repo)) sel)"
      using execute_parallel_returns [OF once assms] by blast
    have "mset (map path rs) = mset (map path (map (\<lambda>repo. fst (push env repo)) sel))"
      using rs by (rule mset_map_cong)
    also have "map path (map (\<lambda>repo. fst (push env repo)) sel) = map path sel"
      by (simp add: push_path)
    finally have "mset (map path rs) = mset (map path sel)" .
    moreover have "push_all env self sched only_ahead sequential False statuses
        = Inr (rs, ev @ evx)"
      using sel run by (simp add: push_all_def)
    ultimately show "\<exists>results ev'.
              push_all env self sched only_ahead sequential False statuses
                = Inr (results, ev')
            \<and> mset (map path results) = mset (map path sel)"
      by blast
  qed
  show "\<exists>sel ev.
        repos_to_push env self sched only_ahead sequential statuses = Inr (sel, ev)
      \<and> push_all env self sched only_ahead sequential True statuses
          = Inr (map (would ''push'' ''Would push (dry-run)'') sel, ev)
      \<and> map path (map (would ''push'' ''Would push (dry-run)'') sel) = map path sel
      \<and> (\<forall>r \<in> set (map (would ''push'' ''Would push (dry-run)'') sel).
            success r \<and> message r = ''Would push (dry-run)'' \<and> operation r = ''push'')
      \<and> (\<forall>e \<in> set ev. \<not> pull_or_push e)
      \<and> (completes_each_once (exec_done sched) \<longrightarrow>
           (\<exists>results ev'.
              push_all env self sched only_ahead sequential False statuses
                = Inr (results, ev')
            \<and> mset (map path results) = mset (map path sel)))"
    using sel dry paths each quiet real by blast
qed

theorem dry_run_is_synthetic_witness:
  "(\<exists>sel ev.
      pull_all fleet_env fleet reversed_schedule True False True SMART (Some fleet_statuses)
        = Inr (map (would ''pull'' ''Would pull (dry-run)'') sel, ev)
    \<and> (\<forall>e \<in> set ev. \<not> pull_or_push e)
    \<and> (\<exists>results ev'.
          pull_all fleet_env fleet reversed_schedule True False False SMART (Some fleet_statuses)
            = Inr (results, ev')
        \<and> mset (map path results) = mset (map path sel)))
   \<and> (\<exists>sel ev.
      push_all fleet_env fleet reversed_schedule True False True (Some fleet_statuses)
        = Inr (map (would ''push'' ''Would push (dry-run)'') sel, ev)
    \<and> (\<exists>results ev'.
          push_all fleet_env fleet reversed_schedule True False False (Some fleet_statuses)
            = Inr (results, ev')
        \<and> mset (map path results) = mset (map path sel)))"
proof -
  have width: "0 < max_workers fleet"
    by (simp add: fleet_def)
  have once: "completes_each_once (exec_done reversed_schedule)"
    using reversed_completion_once by (simp add: reversed_schedule_def)
  show ?thesis
    using dry_run_is_synthetic [of fleet fleet_env reversed_schedule True False SMART
        "Some fleet_statuses" True, OF width] once
    by blast
qed

subsection \<open>Broken repositories are left alone\<close>

lemma zip_unique:
  assumes "distinct xs" "(x, a) \<in> set (zip xs ys)" "(x, b) \<in> set (zip xs ys)"
  shows "a = b"
proof -
  obtain i where i: "i < length xs" "i < length ys" "xs ! i = x" "ys ! i = a"
    using assms(2) by (auto simp: in_set_zip)
  obtain j where j: "j < length xs" "j < length ys" "xs ! j = x" "ys ! j = b"
    using assms(3) by (auto simp: in_set_zip)
  have "i = j"
    using assms(1) i(1,3) j(1,3) by (metis nth_eq_iff_index_eq)
  then show ?thesis using i j by simp
qed

lemma set_completion:
  assumes "completes_each_once done"
  shows "set (map (\<lambda>i. xs ! i) (done (length xs))) = set xs"
  using mset_completion [OF assms, of xs] by (rule mset_eq_setD)

lemma repos_to_pull_needs_pull:
  assumes scan: "statuses_or_scan env self (status_done sched) sequential statuses = Inr (sts, ev0)"
    and once: "completes_each_once (check_done sched)"
    and sel: "repos_to_pull env self sched True sequential mode statuses = Inr (sel, ev)"
  shows "\<forall>repo \<in> set sel. \<exists>status. (repo, status) \<in> set (zip (repositories self) sts)
            \<and> needs_pull status"
proof -
  let ?zs = "zip (repositories self) sts"
  let ?safe = "map fst (filter (\<lambda>(repo, status). needs_pull status \<and> \<not> has_conflict_risk status) ?zs)"
  let ?nc = "map fst (filter (\<lambda>(repo, status). needs_pull status \<and> has_conflict_risk status) ?zs)"
  have part: "smart_partition ?zs [] [] = (?safe, ?nc)"
    by (simp add: smart_partition_eq)
  have fin: "set (map (\<lambda>i. ?nc ! i) (check_done sched (length ?nc))) = set ?nc"
    using set_completion [OF once] .
  have inside: "set sel \<subseteq> set ?safe \<union> set ?nc
      \<union> set (map fst (filter (\<lambda>(repo, status). needs_pull status) ?zs))"
  proof (cases "mode = FORCE \<or> mode = SAFE")
    case True
    then show ?thesis
      using sel scan by (auto simp: repos_to_pull_def discover_repositories_def)
  next
    case False
    then have smart: "mode \<noteq> FORCE" "mode \<noteq> SAFE" by simp_all
    consider (none) "?nc = []"
      | (seq) "?nc \<noteq> []" "sequential \<or> length ?nc \<le> 1"
      | (conc) "?nc \<noteq> []" "\<not> (sequential \<or> length ?nc \<le> 1)"
      by blast
    then show ?thesis
    proof cases
      case none
      then have "sel = ?safe"
        using sel scan smart part
        by (simp add: repos_to_pull_def discover_repositories_def)
      then show ?thesis by blast
    next
      case seq
      then have "sel = ?safe @ filter (\<lambda>repo. \<not> fst (has_file_conflicts env repo)) ?nc"
        using sel scan smart part
        by (simp add: repos_to_pull_def discover_repositories_def)
      then show ?thesis by auto
    next
      case conc
      then have "sel = ?safe @ filter (\<lambda>repo. \<not> fst (has_file_conflicts env repo))
          (map (\<lambda>i. ?nc ! i) (check_done sched (length ?nc)))"
        using sel scan smart part
        by (simp add: repos_to_pull_def discover_repositories_def Let_def split: if_splits)
      then have "set sel \<subseteq> set ?safe \<union> set (map (\<lambda>i. ?nc ! i) (check_done sched (length ?nc)))"
        by auto
      then show ?thesis unfolding fin by blast
    qed
  qed
  show ?thesis
  proof
    fix repo assume "repo \<in> set sel"
    then have "repo \<in> set ?safe \<union> set ?nc
      \<union> set (map fst (filter (\<lambda>(repo, status). needs_pull status) ?zs))"
      using inside by blast
    then show "\<exists>status. (repo, status) \<in> set ?zs \<and> needs_pull status"
      by auto
  qed
qed

lemma repos_to_push_needs_push:
  assumes scan: "statuses_or_scan env self (status_done sched) sequential statuses = Inr (sts, ev0)"
    and sel: "repos_to_push env self sched True sequential statuses = Inr (sel, ev)"
  shows "\<forall>repo \<in> set sel. \<exists>status. (repo, status) \<in> set (zip (repositories self) sts)
            \<and> needs_push status"
proof -
  have "sel = map fst (filter (\<lambda>(repo, status). needs_push status) (zip (repositories self) sts))"
    using sel scan by (simp add: repos_to_push_def discover_repositories_def)
  then show ?thesis by force
qed

text \<open>
  C9. A status with \<open>sync_status = error\<close> needs neither a push nor a pull. So, the
  repositories being distinct, the repository that such a status is paired with is not
  selected by \<open>pull_all\<close> with \<open>only_behind\<close>, in any mode, and not by \<open>push_all\<close> with
  \<open>only_ahead\<close>.
\<close>

theorem error_status_never_selected:
  assumes "sync_status status = ERROR"
  shows "\<not> needs_push status \<and> \<not> needs_pull status
    \<and> (distinct (repositories self)
        \<and> statuses_or_scan env self (status_done sched) sequential statuses = Inr (sts, ev0)
        \<and> (repo, status) \<in> set (zip (repositories self) sts)
        \<and> completes_each_once (check_done sched)
        \<longrightarrow> (\<forall>sel ev. repos_to_pull env self sched True sequential mode statuses = Inr (sel, ev)
                \<longrightarrow> repo \<notin> set sel)
          \<and> (\<forall>sel ev. repos_to_push env self sched True sequential statuses = Inr (sel, ev)
                \<longrightarrow> repo \<notin> set sel))"
proof -
  have flags: "\<not> needs_push status" "\<not> needs_pull status"
    using assms by (simp_all add: needs_push_def needs_pull_def)
  have "(\<forall>sel ev. repos_to_pull env self sched True sequential mode statuses = Inr (sel, ev)
                \<longrightarrow> repo \<notin> set sel)
          \<and> (\<forall>sel ev. repos_to_push env self sched True sequential statuses = Inr (sel, ev)
                \<longrightarrow> repo \<notin> set sel)"
    if d: "distinct (repositories self)"
      and scan: "statuses_or_scan env self (status_done sched) sequential statuses = Inr (sts, ev0)"
      and mem: "(repo, status) \<in> set (zip (repositories self) sts)"
      and once: "completes_each_once (check_done sched)"
  proof (intro conjI allI impI)
    fix sel ev
    assume "repos_to_pull env self sched True sequential mode statuses = Inr (sel, ev)"
    then have "\<forall>r \<in> set sel. \<exists>s. (r, s) \<in> set (zip (repositories self) sts) \<and> needs_pull s"
      using repos_to_pull_needs_pull [OF scan once] by blast
    then show "repo \<notin> set sel"
      using zip_unique [OF d mem] flags by blast
  next
    fix sel ev
    assume "repos_to_push env self sched True sequential statuses = Inr (sel, ev)"
    then have "\<forall>r \<in> set sel. \<exists>s. (r, s) \<in> set (zip (repositories self) sts) \<and> needs_push s"
      using repos_to_push_needs_push [OF scan] by blast
    then show "repo \<notin> set sel"
      using zip_unique [OF d mem] flags by blast
  qed
  then show ?thesis using flags by blast
qed

theorem error_status_never_selected_witness:
  "\<not> needs_push (hd broken_statuses) \<and> \<not> needs_pull (hd broken_statuses)
   \<and> (\<exists>sel ev. repos_to_pull fleet_env fleet reversed_schedule True False SMART
                   (Some broken_statuses) = Inr (sel, ev) \<and> repo_a \<notin> set sel)
   \<and> (\<exists>sel ev. repos_to_push fleet_env fleet reversed_schedule True False
                   (Some broken_statuses) = Inr (sel, ev) \<and> repo_a \<notin> set sel)"
proof -
  have err: "sync_status (hd broken_statuses) = ERROR"
    by (simp add: broken_statuses_def)
  have width: "0 < max_workers fleet"
    by (simp add: fleet_def)
  have pre: "distinct (repositories fleet)
      \<and> statuses_or_scan fleet_env fleet (status_done reversed_schedule) False
          (Some broken_statuses) = Inr (broken_statuses, [])
      \<and> (repo_a, hd broken_statuses) \<in> set (zip (repositories fleet) broken_statuses)
      \<and> completes_each_once (check_done reversed_schedule)"
    using fleet_paths_differ reversed_completion_once
    by (simp add: fleet_def statuses_or_scan_def broken_statuses_def reversed_schedule_def)
  obtain sel ev where pull_sel: "repos_to_pull fleet_env fleet reversed_schedule True False SMART
      (Some broken_statuses) = Inr (sel, ev)"
    using repos_to_pull_total [OF width] by blast
  obtain sel' ev' where push_sel: "repos_to_push fleet_env fleet reversed_schedule True False
      (Some broken_statuses) = Inr (sel', ev')"
    using repos_to_push_total [OF width] by blast
  show ?thesis
    using error_status_never_selected [OF err, of fleet fleet_env reversed_schedule False
        "Some broken_statuses" broken_statuses "[]" repo_a SMART] pre pull_sel push_sel
    by blast
qed

subsection \<open>The execution engine\<close>

lemma filter_single_value:
  assumes "\<forall>x \<in> set zs. P x \<longrightarrow> x = a"
  shows "filter P zs = replicate (length (filter P zs)) a"
  using assms by (induction zs) auto

lemma filter_determined:
  assumes ms: "mset xs = mset ys"
    and one: "\<forall>x \<in> set xs. P x \<longrightarrow> x = a"
  shows "filter P xs = filter P ys"
proof -
  have "set ys = set xs" using ms by (metis mset_eq_setD)
  then have one': "\<forall>x \<in> set ys. P x \<longrightarrow> x = a" using one by simp
  have "length (filter P xs) = length (filter P ys)"
    using ms by (metis mset_filter size_mset)
  then show ?thesis
    using filter_single_value [OF one] filter_single_value [OF one'] by simp
qed

lemma sort_key_determined:
  assumes ms: "mset xs = mset ys"
    and keys: "\<forall>a \<in> set xs. \<forall>b \<in> set xs. f a = f b \<longrightarrow> a = b"
  shows "sort_key f xs = sort_key f ys"
proof (rule properties_for_sort_key)
  show "mset (sort_key f ys) = mset xs" using ms by simp
  show "sorted (map f (sort_key f ys))" by simp
  fix k assume "k \<in> set (sort_key f ys)"
  then have k: "k \<in> set xs" using ms by (metis mset_eq_setD set_sort)
  have "filter (\<lambda>x. f k = f x) (sort_key f ys) = filter (\<lambda>x. f x = f k) (sort_key f ys)"
    by (rule filter_cong) auto
  also have "\<dots> = filter (\<lambda>x. f x = f k) ys"
    by (rule sort_key_stable)
  also have "\<dots> = filter (\<lambda>x. f x = f k) xs"
    by (rule filter_determined [symmetric, OF ms, of _ k]) (use keys k in auto)
  also have "\<dots> = filter (\<lambda>x. f k = f x) xs"
    by (rule filter_cong) auto
  finally show "filter (\<lambda>x. f k = f x) (sort_key f ys) = filter (\<lambda>x. f k = f x) xs" .
qed

lemma execute_parallel_sorted:
  assumes "execute_parallel self done op repos sequential = Inr (rs, ev)"
  shows "sorted (map path rs)"
  using assms by (auto simp: execute_parallel_def Let_def split: if_splits)

text \<open>
  The results of the fleet's own operations carry the path of their repository, and a
  repository is determined by its path; so among them a path tells results apart.
\<close>

lemma fleet_operation_paths:
  "path (fst (get_status env fetch_first repo)) = path repo"
  "path (fst (fetch env repo)) = path repo"
  "path (fst (pull env repo)) = path repo"
  "path (fst (push env repo)) = path repo"
  by (simp_all add: get_status_def fetch_def pull_def push_def Let_def status_init_def
      split: prod.splits)

lemma located_results_keyed:
  assumes "\<forall>r \<in> set repos. path (fst (op r)) = path r"
    and "\<forall>r \<in> set repos. r = GitRepository_init (path r)"
  shows "\<forall>r \<in> set repos. \<forall>r' \<in> set repos.
           path (fst (op r)) = path (fst (op r')) \<longrightarrow> fst (op r) = fst (op r')"
  using assms by metis

text \<open>
  C5. For an operation whose results are told apart by their path (two
  repositories of the list with results of the same path have the same result), a
  sequential run and a concurrent run of any width of at least one, under any completion
  order, return the same list: sorted by path, one result per repository, the multiset of
  the operation's results. A sequential run, and a run over at most one repository,
  record no event but those of the operation: no pool is created.
\<close>

theorem engine_same_results:
  assumes once: "completes_each_once done"
    and width: "0 < max_workers self'"
    and keys: "\<forall>r \<in> set repos. \<forall>r' \<in> set repos.
                 path (fst (op r)) = path (fst (op r')) \<longrightarrow> fst (op r) = fst (op r')"
  shows "\<exists>rs ev ev'.
      execute_parallel self done0 op (Some repos) True = Inr (rs, ev)
    \<and> execute_parallel self' done op (Some repos) False = Inr (rs, ev')
    \<and> length rs = length repos
    \<and> mset rs = mset (map (\<lambda>repo. fst (op repo)) repos)
    \<and> sorted (map path rs)
    \<and> ev = concat (map (\<lambda>repo. snd (op repo)) repos)
    \<and> (length repos \<le> 1 \<longrightarrow> ev' = concat (map (\<lambda>repo. snd (op repo)) repos))"
proof -
  let ?seq = "map (\<lambda>repo. fst (op repo)) repos"
  let ?rs = "sort_key path ?seq"
  have seq: "execute_parallel self done0 op (Some repos) True
      = Inr (?rs, concat (map (\<lambda>repo. snd (op repo)) repos))"
    by (simp add: execute_parallel_def)
  have len: "length ?rs = length repos" by simp
  have ms: "mset ?rs = mset ?seq" by simp
  have srt: "sorted (map path ?rs)" by simp
  have conc: "\<exists>ev'. execute_parallel self' done op (Some repos) False = Inr (?rs, ev')
      \<and> (length repos \<le> 1 \<longrightarrow> ev' = concat (map (\<lambda>repo. snd (op repo)) repos))"
  proof (cases "length repos \<le> 1")
    case True
    then show ?thesis by (simp add: execute_parallel_def)
  next
    case False
    let ?fin = "map (\<lambda>repo. fst (op repo)) (map (\<lambda>i. repos ! i) (done (length repos)))"
    have m: "mset ?seq = mset ?fin"
      by (rule mset_map_cong [OF mset_completion [OF once], symmetric])
    have k: "\<forall>a \<in> set ?seq. \<forall>b \<in> set ?seq. path a = path b \<longrightarrow> a = b"
      using keys by auto
    have "sort_key path ?seq = sort_key path ?fin"
      using sort_key_determined [OF m k] .
    then show ?thesis
      using False width by (simp add: execute_parallel_def Let_def del: map_map)
  qed
  show ?thesis
    using seq len ms srt conc by blast
qed

theorem engine_same_results_witness:
  "\<exists>rs ev ev'.
      execute_parallel fleet (\<lambda>n. [0..<n]) (pull fleet_env) (Some [repo_b, repo_c, repo_a]) True
        = Inr (rs, ev)
    \<and> execute_parallel (fleet\<lparr>max_workers := 2\<rparr>) reversed_completion (pull fleet_env)
          (Some [repo_b, repo_c, repo_a]) False = Inr (rs, ev')
    \<and> length rs = 3 \<and> sorted (map path rs)"
proof -
  have keys: "\<forall>r \<in> set [repo_b, repo_c, repo_a]. \<forall>r' \<in> set [repo_b, repo_c, repo_a].
      path (fst (pull fleet_env r)) = path (fst (pull fleet_env r'))
      \<longrightarrow> fst (pull fleet_env r) = fst (pull fleet_env r')"
    using fleet_paths_differ by (auto simp: pull_path)
  have width: "0 < max_workers (fleet\<lparr>max_workers := 2\<rparr>)" by simp
  show ?thesis
    using engine_same_results [OF reversed_completion_once width keys, of fleet "\<lambda>n. [0..<n]"]
    by auto
qed

text \<open>
  C5 needs both conditions. The results of an operation that gives them all the same path
  come back in completion order, since the sort is stable; and a pool of width zero is
  refused where the sequential run returns.
\<close>

theorem engine_same_results_counterexample:
  "execute_parallel fleet reversed_completion unlocated (Some [repo_a, repo_b]) True
     = Inr ([\<lparr>path = [], name = ''a''\<rparr>, \<lparr>path = [], name = ''b''\<rparr>], [])
   \<and> execute_parallel fleet reversed_completion unlocated (Some [repo_a, repo_b]) False
     = Inr ([\<lparr>path = [], name = ''b''\<rparr>, \<lparr>path = [], name = ''a''\<rparr>], [Pool 8])
   \<and> execute_parallel (fleet\<lparr>max_workers := 0\<rparr>) reversed_completion unlocated
        (Some [repo_a, repo_b]) False = Inl ValueError"
  by (simp add: execute_parallel_def unlocated_def fleet_def reversed_completion_def
      repo_a_def repo_b_def GitRepository_init_def path_name_def upt_rec [of 0]
      upt_rec [of "Suc 0"])

subsection \<open>The order of the result lists\<close>

text \<open>
  Every list that leaves \<open>_execute_parallel\<close> is sorted by path: the lists of
  \<open>get_all_status\<close> and \<open>fetch_all\<close>, and those of \<open>pull_all\<close> and \<open>push_all\<close> without
  \<open>dry_run\<close>.
\<close>

lemma fleet_results_sorted:
  "get_all_status env self done fetch_first sequential = Inr (sts, ev) \<Longrightarrow> sorted (map path sts)"
  "fetch_all env self done sequential = Inr (rs, ev) \<Longrightarrow> sorted (map path rs)"
  "pull_all env self sched only_behind sequential False mode statuses = Inr (rs, ev)
     \<Longrightarrow> sorted (map path rs)"
  "push_all env self sched only_ahead sequential False statuses = Inr (rs, ev)
     \<Longrightarrow> sorted (map path rs)"
proof -
  show "get_all_status env self done fetch_first sequential = Inr (sts, ev)
      \<Longrightarrow> sorted (map path sts)"
    unfolding get_all_status_def by (rule execute_parallel_sorted)
  show "fetch_all env self done sequential = Inr (rs, ev) \<Longrightarrow> sorted (map path rs)"
    unfolding fetch_all_def by (rule execute_parallel_sorted)
  show "pull_all env self sched only_behind sequential False mode statuses = Inr (rs, ev)
      \<Longrightarrow> sorted (map path rs)"
    by (auto simp: pull_all_def split: sum.splits prod.splits dest: execute_parallel_sorted)
  show "push_all env self sched only_ahead sequential False statuses = Inr (rs, ev)
      \<Longrightarrow> sorted (map path rs)"
    by (auto simp: push_all_def split: sum.splits prod.splits dest: execute_parallel_sorted)
qed

text \<open>
  C6 fails for the dry run of a smart pull, which returns before any sort. Run
  sequentially on the fleet, with \<open>a\<close> diverged but free of file conflicts and \<open>b\<close>
  behind, it lists \<open>b\<close> before \<open>a\<close>. Run concurrently with all three diverged, it lists
  \<open>a\<close>, \<open>b\<close> or \<open>b\<close>, \<open>a\<close> as the conflict checks complete.
\<close>

theorem dry_run_smart_pull_unsorted:
  "pull_all fleet_env fleet submission_schedule True True True SMART (Some crossed_statuses)
     = Inr ([would ''pull'' ''Would pull (dry-run)'' repo_b,
             would ''pull'' ''Would pull (dry-run)'' repo_a],
            snd (has_file_conflicts fleet_env repo_a) @ snd (has_file_conflicts fleet_env repo_c))
   \<and> \<not> sorted (map path [would ''pull'' ''Would pull (dry-run)'' repo_b,
                           would ''pull'' ''Would pull (dry-run)'' repo_a])
   \<and> pull_all fleet_env fleet submission_schedule True False True SMART (Some diverged_statuses)
     = Inr ([would ''pull'' ''Would pull (dry-run)'' repo_a,
             would ''pull'' ''Would pull (dry-run)'' repo_b],
            Pool 8 # snd (has_file_conflicts fleet_env repo_a)
              @ snd (has_file_conflicts fleet_env repo_b)
              @ snd (has_file_conflicts fleet_env repo_c))
   \<and> pull_all fleet_env fleet reversed_schedule True False True SMART (Some diverged_statuses)
     = Inr ([would ''pull'' ''Would pull (dry-run)'' repo_b,
             would ''pull'' ''Would pull (dry-run)'' repo_a],
            Pool 8 # snd (has_file_conflicts fleet_env repo_c)
              @ snd (has_file_conflicts fleet_env repo_b)
              @ snd (has_file_conflicts fleet_env repo_a))"
proof -
  have part1: "smart_partition (zip [repo_a, repo_b, repo_c] crossed_statuses) [] []
      = ([repo_b], [repo_a, repo_c])"
    using fleet_status_flags by (simp add: crossed_statuses_def)
  have part2: "smart_partition (zip [repo_a, repo_b, repo_c] diverged_statuses) [] []
      = ([], [repo_a, repo_b, repo_c])"
    using fleet_status_flags by (simp add: diverged_statuses_def)
  have upt3: "[0..<3] = [0, 1, 2]" by (simp add: upt_rec)
  have unsorted: "\<not> sorted (map path [would ''pull'' ''Would pull (dry-run)'' repo_b,
                           would ''pull'' ''Would pull (dry-run)'' repo_a])"
    by (simp add: would_path repo_a_def repo_b_def GitRepository_init_def)
  have seq: "pull_all fleet_env fleet submission_schedule True True True SMART (Some crossed_statuses)
     = Inr ([would ''pull'' ''Would pull (dry-run)'' repo_b,
             would ''pull'' ''Would pull (dry-run)'' repo_a],
            snd (has_file_conflicts fleet_env repo_a) @ snd (has_file_conflicts fleet_env repo_c))"
    using fleet_conflicts
    by (simp add: pull_all_def repos_to_pull_def statuses_or_scan_def discover_repositories_def
        fleet_def part1)
  have fwd: "pull_all fleet_env fleet submission_schedule True False True SMART (Some diverged_statuses)
     = Inr ([would ''pull'' ''Would pull (dry-run)'' repo_a,
             would ''pull'' ''Would pull (dry-run)'' repo_b],
            Pool 8 # snd (has_file_conflicts fleet_env repo_a)
              @ snd (has_file_conflicts fleet_env repo_b)
              @ snd (has_file_conflicts fleet_env repo_c))"
    using fleet_conflicts
    by (simp add: pull_all_def repos_to_pull_def statuses_or_scan_def discover_repositories_def
        fleet_def part2 submission_schedule_def upt3)
  have bwd: "pull_all fleet_env fleet reversed_schedule True False True SMART (Some diverged_statuses)
     = Inr ([would ''pull'' ''Would pull (dry-run)'' repo_b,
             would ''pull'' ''Would pull (dry-run)'' repo_a],
            Pool 8 # snd (has_file_conflicts fleet_env repo_c)
              @ snd (has_file_conflicts fleet_env repo_b)
              @ snd (has_file_conflicts fleet_env repo_a))"
    using fleet_conflicts
    by (simp add: pull_all_def repos_to_pull_def statuses_or_scan_def discover_repositories_def
        fleet_def part2 reversed_schedule_def reversed_completion_def upt3)
  show ?thesis using seq unsorted fwd bwd by blast
qed

subsection \<open>Display names\<close>

text \<open>Joining with a slash loses nothing on the parts of paths.\<close>

lemma join_Cons: "join sep (x # xs) = x @ concat (map (\<lambda>y. sep @ y) xs)"
  by (induction xs arbitrary: x) auto

lemma takeWhile_segment:
  assumes "CHR ''/'' \<notin> set x" and "t = [] \<or> hd t = CHR ''/''"
  shows "takeWhile (\<lambda>c. c \<noteq> CHR ''/'') (x @ t) = x"
  using assms by (induction x) (auto simp: takeWhile_eq_Nil_iff)

lemma tail_shape:
  "concat (map (\<lambda>y. ''/'' @ y) xs) = [] \<or> hd (concat (map (\<lambda>y. ''/'' @ y) xs)) = CHR ''/''"
  by (cases xs) auto

lemma tail_inj:
  assumes "list_all segment xs" "list_all segment ys"
    and "concat (map (\<lambda>y. ''/'' @ y) xs) = concat (map (\<lambda>y. ''/'' @ y) ys)"
  shows "xs = ys"
  using assms
proof (induction xs arbitrary: ys)
  case Nil
  then show ?case by (cases ys) auto
next
  case (Cons x xs)
  then obtain y ys' where ys: "ys = y # ys'"
    by (cases ys) auto
  let ?t = "\<lambda>zs. concat (map (\<lambda>y. ''/'' @ y) zs)"
  have eq: "x @ ?t xs = y @ ?t ys'"
    using Cons.prems(3) ys by simp
  have sx: "CHR ''/'' \<notin> set x" and sy: "CHR ''/'' \<notin> set y"
    using Cons.prems(1,2) ys by (simp_all add: segment_def)
  have "takeWhile (\<lambda>c. c \<noteq> CHR ''/'') (x @ ?t xs) = x"
    by (rule takeWhile_segment [OF sx tail_shape])
  moreover have "takeWhile (\<lambda>c. c \<noteq> CHR ''/'') (y @ ?t ys') = y"
    by (rule takeWhile_segment [OF sy tail_shape])
  ultimately have xy: "x = y" using eq by simp
  then have "?t xs = ?t ys'" using eq by simp
  then have "xs = ys'"
    using Cons.IH [of ys'] Cons.prems(1,2) ys by simp
  then show ?case using xy ys by simp
qed

lemma join_nonempty:
  assumes "wf_parts (x # xs)"
  shows "join ''/'' (x # xs) \<noteq> []"
  using assms by (auto simp: wf_parts_def join_Cons root_def segment_def)

lemma join_hd:
  assumes "wf_parts (x # xs)"
  shows "hd (join ''/'' (x # xs)) = CHR ''/'' \<longleftrightarrow> root x"
  using assms by (cases x) (auto simp: wf_parts_def join_Cons root_def segment_def)

lemma root_tail_inj:
  assumes "root x" "root y" "list_all segment xs" "list_all segment ys"
    and eq: "x @ concat (map (\<lambda>y. ''/'' @ y) xs) = y @ concat (map (\<lambda>y. ''/'' @ y) ys)"
  shows "x = y \<and> xs = ys"
proof -
  let ?t = "\<lambda>zs. concat (map (\<lambda>y. ''/'' @ y) zs)"
  have no: "\<And>zs. list_all segment zs \<Longrightarrow> ?t zs \<noteq> ''/'' @ ?t ws" for ws
  proof -
    fix zs :: "string list" assume z: "list_all segment zs"
    show "?t zs \<noteq> ''/'' @ ?t ws"
    proof (cases zs)
      case Nil
      then show ?thesis by simp
    next
      case (Cons z zs')
      then obtain c cs where zc: "z = c # cs" "c \<noteq> CHR ''/''"
        using z by (cases z) (auto simp: segment_def)
      have "?t ws = [] \<or> hd (?t ws) = CHR ''/''" by (rule tail_shape)
      then show ?thesis
        using Cons zc by (cases "?t ws") auto
    qed
  qed
  have "x = y"
  proof (rule ccontr)
    assume "x \<noteq> y"
    then consider "x = ''/''" "y = ''//''" | "x = ''//''" "y = ''/''"
      using assms(1,2) by (auto simp: root_def)
    then show False
    proof cases
      case 1
      then have "?t xs = ''/'' @ ?t ys" using eq by simp
      then show False using no [OF assms(3)] by blast
    next
      case 2
      then have "?t ys = ''/'' @ ?t xs" using eq by simp
      then show False using no [OF assms(4)] by blast
    qed
  qed
  moreover from this have "?t xs = ?t ys" using eq by simp
  then have "xs = ys" using tail_inj [OF assms(3,4)] by blast
  ultimately show ?thesis by simp
qed

lemma join_inj:
  assumes "wf_parts xs" "wf_parts ys" "join ''/'' xs = join ''/'' ys"
  shows "xs = ys"
proof (cases xs)
  case Nil
  show ?thesis
  proof (cases ys)
    case ysNil: Nil
    then show ?thesis using Nil by simp
  next
    case (Cons y ys')
    then have "join ''/'' ys \<noteq> []"
      using join_nonempty [of y ys'] assms(2) by simp
    then show ?thesis using assms(3) Nil by simp
  qed
next
  case (Cons x xs')
  note xs = this
  show ?thesis
  proof (cases ys)
    case Nil
    have "join ''/'' xs \<noteq> []"
      using join_nonempty [of x xs'] assms(1) xs by simp
    then show ?thesis using assms(3) Nil by simp
  next
    case (Cons y ys')
    have segs: "list_all segment xs'" "list_all segment ys'"
      using assms(1,2) xs Cons by (simp_all add: wf_parts_def)
    have eq: "x @ concat (map (\<lambda>y. ''/'' @ y) xs') = y @ concat (map (\<lambda>y. ''/'' @ y) ys')"
      using assms(3) xs Cons by (simp add: join_Cons)
    have "root x \<longleftrightarrow> root y"
      using join_hd [of x xs'] join_hd [of y ys'] assms xs Cons by simp
    then consider (r) "root x" "root y" | (s) "\<not> root x" "\<not> root y" by blast
    then show ?thesis
    proof cases
      case r
      then show ?thesis
        using root_tail_inj [OF r segs eq] xs Cons by simp
    next
      case s
      then have "segment x" "segment y"
        using assms(1,2) xs Cons by (simp_all add: wf_parts_def)
      then have "list_all segment (x # xs')" "list_all segment (y # ys')"
        using segs by simp_all
      moreover have "concat (map (\<lambda>y. ''/'' @ y) (x # xs'))
          = concat (map (\<lambda>y. ''/'' @ y) (y # ys'))"
        using eq by simp
      ultimately have "x # xs' = y # ys'" by (rule tail_inj)
      then show ?thesis using xs Cons by simp
    qed
  qed
qed

lemma wf_parts_drop: "wf_parts p \<Longrightarrow> wf_parts (drop k p)"
proof (cases k)
  case 0
  assume "wf_parts p"
  then show ?thesis using 0 by simp
next
  case (Suc k')
  assume w: "wf_parts p"
  show ?thesis
  proof (cases p)
    case Nil
    then show ?thesis by (simp add: wf_parts_def)
  next
    case (Cons x xs)
    then have "list_all segment xs" using w by (simp add: wf_parts_def)
    then have "list_all segment (drop k' xs)"
      by (metis append_take_drop_id list_all_append)
    then have "wf_parts (drop k' xs)"
      by (cases "drop k' xs") (simp_all add: wf_parts_def)
    then show ?thesis using Cons Suc by simp
  qed
qed

lemma wf_parts_trailing: "wf_parts p \<Longrightarrow> wf_parts (trailing d p)"
  unfolding trailing_def by (rule wf_parts_drop)

lemma trailing_rev_take: "rev (take d (rev p)) = trailing d p"
  by (simp add: trailing_def rev_take)

lemma trailing_min: "trailing (min d (length p)) p = trailing d p"
  by (cases "d \<le> length p") (simp_all add: trailing_def min_def)

lemma length_trailing: "length (trailing d p) = min d (length p)"
  by (simp add: trailing_def)

text \<open>The two loops of \<open>_make_paths_unique\<close>.\<close>

lemma is_unique_iff:
  "is_unique i candidate depth (enumerate k pps) \<longleftrightarrow>
     (\<forall>j < length pps. k + j \<noteq> i \<longrightarrow>
        candidate \<noteq> join ''/'' (rev (take (min depth (length (pps ! j))) (pps ! j))))"
proof (induction pps arbitrary: k)
  case Nil
  then show ?case by simp
next
  case (Cons other pps)
  let ?f = "\<lambda>x. join ''/'' (rev (take (min depth (length x)) x))"
  have lhs: "is_unique i candidate depth (enumerate k (other # pps)) \<longleftrightarrow>
      (k \<noteq> i \<longrightarrow> candidate \<noteq> ?f other)
      \<and> is_unique i candidate depth (enumerate (Suc k) pps)"
    by (auto simp: Let_def)
  have rhs: "(\<forall>j < length (other # pps). k + j \<noteq> i \<longrightarrow> candidate \<noteq> ?f ((other # pps) ! j))
      \<longleftrightarrow> (k \<noteq> i \<longrightarrow> candidate \<noteq> ?f other)
          \<and> (\<forall>j < length pps. Suc k + j \<noteq> i \<longrightarrow> candidate \<noteq> ?f (pps ! j))"
  proof
    assume a: "\<forall>j < length (other # pps). k + j \<noteq> i \<longrightarrow> candidate \<noteq> ?f ((other # pps) ! j)"
    have "k \<noteq> i \<longrightarrow> candidate \<noteq> ?f other"
      using a [rule_format, of 0] by simp
    moreover have "\<forall>j < length pps. Suc k + j \<noteq> i \<longrightarrow> candidate \<noteq> ?f (pps ! j)"
    proof (intro allI impI)
      fix j assume "j < length pps" "Suc k + j \<noteq> i"
      then show "candidate \<noteq> ?f (pps ! j)"
        using a [rule_format, of "Suc j"] by simp
    qed
    ultimately show "(k \<noteq> i \<longrightarrow> candidate \<noteq> ?f other)
          \<and> (\<forall>j < length pps. Suc k + j \<noteq> i \<longrightarrow> candidate \<noteq> ?f (pps ! j))"
      by blast
  next
    assume b: "(k \<noteq> i \<longrightarrow> candidate \<noteq> ?f other)
          \<and> (\<forall>j < length pps. Suc k + j \<noteq> i \<longrightarrow> candidate \<noteq> ?f (pps ! j))"
    show "\<forall>j < length (other # pps). k + j \<noteq> i \<longrightarrow> candidate \<noteq> ?f ((other # pps) ! j)"
    proof (intro allI impI)
      fix j assume j: "j < length (other # pps)" "k + j \<noteq> i"
      show "candidate \<noteq> ?f ((other # pps) ! j)"
      proof (cases j)
        case 0
        then show ?thesis using b j by simp
      next
        case (Suc j')
        then show ?thesis using b j by simp
      qed
    qed
  qed
  show ?case
    unfolding lhs rhs using Cons.IH [of "Suc k"] by simp
qed

lemma unique_name_spec:
  assumes "depth \<le> Suc (length parts)"
  shows "\<exists>d. depth \<le> d \<and> d \<le> Suc (length parts)
    \<and> (\<forall>d'. depth \<le> d' \<and> d' < d \<longrightarrow>
          \<not> is_unique i (join ''/'' (rev (take d' parts))) d' (enumerate 0 pps))
    \<and> (if d \<le> length parts
        then is_unique i (join ''/'' (rev (take d parts))) d (enumerate 0 pps)
             \<and> unique_name i parts pps depth = join ''/'' (rev (take d parts))
        else unique_name i parts pps depth = join ''/'' (rev parts))"
  using assms
proof (induction i parts pps depth rule: unique_name.induct)
  case (1 i parts pps depth)
  let ?U = "\<lambda>d. is_unique i (join ''/'' (rev (take d parts))) d (enumerate 0 pps)"
  show ?case
  proof (cases "depth \<le> length parts")
    case False
    then have "unique_name i parts pps depth = join ''/'' (rev parts)"
      by (subst unique_name.simps) simp
    then show ?thesis
      using False "1.prems" by (intro exI [of _ depth]) auto
  next
    case True
    show ?thesis
    proof (cases "?U depth")
      case u: True
      then have "unique_name i parts pps depth = join ''/'' (rev (take depth parts))"
        using True by (subst unique_name.simps) (simp add: Let_def)
      then show ?thesis
        using True u by (intro exI [of _ depth]) auto
    next
      case nu: False
      have step: "unique_name i parts pps depth = unique_name i parts pps (depth + 1)"
        using True nu by (subst unique_name.simps) (simp add: Let_def)
      obtain d where d: "depth + 1 \<le> d" "d \<le> Suc (length parts)"
        "\<forall>d'. depth + 1 \<le> d' \<and> d' < d \<longrightarrow> \<not> ?U d'"
        "if d \<le> length parts
         then ?U d \<and> unique_name i parts pps (depth + 1) = join ''/'' (rev (take d parts))
         else unique_name i parts pps (depth + 1) = join ''/'' (rev parts)"
        using "1.IH" [OF True refl nu] True by auto
      have below: "\<forall>d'. depth \<le> d' \<and> d' < d \<longrightarrow> \<not> ?U d'"
      proof (intro allI impI)
        fix d' assume "depth \<le> d' \<and> d' < d"
        then consider "d' = depth" | "depth + 1 \<le> d' \<and> d' < d" by linarith
        then show "\<not> ?U d'" using nu d(3) by cases auto
      qed
      show ?thesis
        using d(1,2,4) below step by (intro exI [of _ d]) auto
    qed
  qed
qed

lemma make_paths_unique_nth:
  assumes "i < length paths"
  shows "make_paths_unique paths ! i = unique_name i (rev (paths ! i)) (map rev paths) 1"
  using assms by (simp add: make_paths_unique_def Let_def nth_enumerate_eq)

lemma length_make_paths_unique: "length (make_paths_unique paths) = length paths"
  by (simp add: make_paths_unique_def Let_def)

text \<open>
  On the parts of paths the string test of the inner loop is a test on segments: the
  candidate of depth \<open>d\<close> is unique unless another path ends in the same \<open>d\<close> segments.
\<close>

lemma is_unique_shared:
  assumes wf: "\<forall>p \<in> set paths. wf_parts p" and i: "i < length paths"
    and d: "d \<le> length (paths ! i)"
  shows "is_unique i (join ''/'' (rev (take d (rev (paths ! i))))) d (enumerate 0 (map rev paths))
    \<longleftrightarrow> \<not> shared_by_other paths i d"
proof -
  have cand: "rev (take d (rev (paths ! i))) = trailing d (paths ! i)"
    by (rule trailing_rev_take)
  have other: "rev (take (min d (length (map rev paths ! j))) (map rev paths ! j))
      = trailing d (paths ! j)" if "j < length paths" for j
    using that by (simp add: trailing_rev_take trailing_min)
  have wfi: "wf_parts (trailing d (paths ! i))"
    using wf i by (simp add: wf_parts_trailing)
  have wfj: "wf_parts (trailing d (paths ! j))" if "j < length paths" for j
    using wf that by (simp add: wf_parts_trailing)
  have same: "join ''/'' (trailing d (paths ! i)) = join ''/'' (trailing d (paths ! j))
      \<longleftrightarrow> d \<le> length (paths ! j) \<and> trailing d (paths ! j) = trailing d (paths ! i)"
    if j: "j < length paths" for j
  proof
    assume "join ''/'' (trailing d (paths ! i)) = join ''/'' (trailing d (paths ! j))"
    then have eq: "trailing d (paths ! i) = trailing d (paths ! j)"
      using join_inj [OF wfi wfj [OF j]] by blast
    then have "length (trailing d (paths ! i)) = length (trailing d (paths ! j))" by simp
    then have "d \<le> length (paths ! j)"
      using d by (simp add: length_trailing)
    then show "d \<le> length (paths ! j) \<and> trailing d (paths ! j) = trailing d (paths ! i)"
      using eq by simp
  next
    assume "d \<le> length (paths ! j) \<and> trailing d (paths ! j) = trailing d (paths ! i)"
    then show "join ''/'' (trailing d (paths ! i)) = join ''/'' (trailing d (paths ! j))"
      by simp
  qed
  have "is_unique i (join ''/'' (rev (take d (rev (paths ! i))))) d (enumerate 0 (map rev paths))
      \<longleftrightarrow> (\<forall>j < length paths. j \<noteq> i \<longrightarrow>
            join ''/'' (trailing d (paths ! i)) \<noteq> join ''/'' (trailing d (paths ! j)))"
    unfolding is_unique_iff cand using other by simp
  also have "\<dots> \<longleftrightarrow> \<not> shared_by_other paths i d"
    unfolding shared_by_other_def using same by blast
  finally show ?thesis .
qed

lemma unique_name_depth:
  assumes wf: "\<forall>p \<in> set paths. wf_parts p" and i: "i < length paths"
  shows "\<exists>d \<le> length (paths ! i).
      (paths ! i \<noteq> [] \<longrightarrow> 1 \<le> d)
    \<and> make_paths_unique paths ! i = join ''/'' (trailing d (paths ! i))
    \<and> (\<forall>d'. 1 \<le> d' \<and> d' < d \<longrightarrow> shared_by_other paths i d')
    \<and> (\<not> shared_by_other paths i d \<or> d = length (paths ! i))"
proof -
  let ?p = "paths ! i"
  let ?U = "\<lambda>d. is_unique i (join ''/'' (rev (take d (rev ?p)))) d (enumerate 0 (map rev paths))"
  obtain d where d: "1 \<le> d" "d \<le> Suc (length ?p)"
    "\<forall>d'. 1 \<le> d' \<and> d' < d \<longrightarrow> \<not> ?U d'"
    "if d \<le> length ?p
     then ?U d \<and> unique_name i (rev ?p) (map rev paths) 1 = join ''/'' (rev (take d (rev ?p)))
     else unique_name i (rev ?p) (map rev paths) 1 = join ''/'' (rev (rev ?p))"
    using unique_name_spec [of 1 "rev ?p" i "map rev paths"] by auto
  have below: "\<forall>d'. 1 \<le> d' \<and> d' < d \<longrightarrow> shared_by_other paths i d'"
  proof (intro allI impI)
    fix d' assume a: "1 \<le> d' \<and> d' < d"
    then have "d' \<le> length ?p" using d(2) by simp
    then show "shared_by_other paths i d'"
      using is_unique_shared [OF wf i] d(3) a by blast
  qed
  show ?thesis
  proof (cases "d \<le> length ?p")
    case True
    then have "\<not> shared_by_other paths i d"
      using is_unique_shared [OF wf i True] d(4) by simp
    moreover have "make_paths_unique paths ! i = join ''/'' (trailing d ?p)"
      using True d(4) make_paths_unique_nth [OF i] by (simp add: trailing_rev_take)
    ultimately show ?thesis
      using True d(1) below by (intro exI [of _ d]) auto
  next
    case False
    then have dl: "d = Suc (length ?p)" using d(2) by simp
    have "make_paths_unique paths ! i = join ''/'' (trailing (length ?p) ?p)"
      using False d(4) make_paths_unique_nth [OF i] by (simp add: trailing_def)
    moreover have "\<forall>d'. 1 \<le> d' \<and> d' < length ?p \<longrightarrow> shared_by_other paths i d'"
      using below dl by simp
    ultimately show ?thesis
      by (intro exI [of _ "length ?p"]) (auto simp: Suc_le_eq)
  qed
qed

lemma root_not_segment: "root x \<Longrightarrow> \<not> segment x"
  by (auto simp: root_def segment_def)

lemma absolute_not_shared:
  assumes dist: "distinct paths" and wf: "\<forall>p \<in> set paths. wf_parts p"
    and ab: "\<forall>p \<in> set paths. p \<noteq> [] \<and> root (hd p)"
    and i: "i < length paths"
  shows "\<not> shared_by_other paths i (length (paths ! i))"
proof
  let ?p = "paths ! i"
  assume "shared_by_other paths i (length ?p)"
  then obtain j where j: "j < length paths" "j \<noteq> i" "length ?p \<le> length (paths ! j)"
    and eq: "trailing (length ?p) (paths ! j) = trailing (length ?p) ?p"
    by (auto simp: shared_by_other_def)
  let ?q = "paths ! j"
  let ?k = "length ?q - length ?p"
  have dq: "drop ?k ?q = ?p"
    using eq by (simp add: trailing_def)
  have mem: "?p \<in> set paths" "?q \<in> set paths"
    using i j(1) by simp_all
  then have "?p \<noteq> [] \<and> root (hd ?p)" "?q \<noteq> []" "wf_parts ?q"
    using ab wf by blast+
  then obtain x xs y ys where p: "?p = x # xs" and rx: "root x"
    and q: "?q = y # ys" and segs: "list_all segment ys"
    by (cases ?p; cases ?q) (auto simp: wf_parts_def)
  show False
  proof (cases ?k)
    case 0
    then have "?q = ?p" using dq by simp
    then show False
      using dist i j(1,2) by (simp add: nth_eq_iff_index_eq)
  next
    case (Suc k')
    then have "drop k' ys = x # xs"
      using dq p q by simp
    then have "x \<in> set ys"
      by (metis in_set_dropD list.set_intros(1))
    then have "segment x"
      using segs by (simp add: list_all_iff)
    then show False using rx root_not_segment by blast
  qed
qed

lemma depth_names_differ:
  assumes dist: "distinct ps" and wf: "\<forall>p \<in> set ps. wf_parts p"
    and i: "i < length ps" and j: "j < length ps" and ij: "i \<noteq> j"
    and d: "d \<le> length (ps ! i)" "\<not> shared_by_other ps i d \<or> d = length (ps ! i)"
    and e: "e \<le> length (ps ! j)" "\<not> shared_by_other ps j e \<or> e = length (ps ! j)"
  shows "join ''/'' (trailing d (ps ! i)) \<noteq> join ''/'' (trailing e (ps ! j))"
proof
  let ?p = "ps ! i" and ?q = "ps ! j"
  assume same: "join ''/'' (trailing d ?p) = join ''/'' (trailing e ?q)"
  have "wf_parts (trailing d ?p)" "wf_parts (trailing e ?q)"
    using wf i j by (simp_all add: wf_parts_trailing)
  then have eq: "trailing d ?p = trailing e ?q"
    using join_inj same by simp
  then have "length (trailing d ?p) = length (trailing e ?q)" by simp
  then have de: "d = e"
    using d(1) e(1) by (simp add: length_trailing)
  have si: "shared_by_other ps i d"
    unfolding shared_by_other_def using j ij e(1) eq de by auto
  have sj: "shared_by_other ps j e"
    unfolding shared_by_other_def using i ij d(1) eq de by auto
  have "d = length ?p" "e = length ?q"
    using d(2) e(2) si sj by simp_all
  then have "?p = ?q"
    using eq by (simp add: trailing_def)
  then show False
    using dist i j ij by (simp add: nth_eq_iff_index_eq)
qed

lemma names_differ:
  assumes dist: "distinct paths" and wf: "\<forall>p \<in> set paths. wf_parts p"
    and i: "i < length paths" and j: "j < length paths" and ij: "i \<noteq> j"
  shows "make_paths_unique paths ! i \<noteq> make_paths_unique paths ! j"
proof -
  obtain d where d: "d \<le> length (paths ! i)"
    "make_paths_unique paths ! i = join ''/'' (trailing d (paths ! i))"
    "\<not> shared_by_other paths i d \<or> d = length (paths ! i)"
    using unique_name_depth [OF wf i] by blast
  obtain e where e: "e \<le> length (paths ! j)"
    "make_paths_unique paths ! j = join ''/'' (trailing e (paths ! j))"
    "\<not> shared_by_other paths j e \<or> e = length (paths ! j)"
    using unique_name_depth [OF wf j] by blast
  show ?thesis
    using depth_names_differ [OF dist wf i j ij d(1,3) e(1,3)] d(2) e(2) by simp
qed

subsection \<open>Grouping by name\<close>

lemma fst_group_append:
  "map fst (group_append k v gs) = (if k \<in> fst ` set gs then map fst gs else map fst gs @ [k])"
  by (induction gs) force+

lemma map_of_group_append:
  "map_of (group_append k v gs) =
     (map_of gs)(k \<mapsto> (case map_of gs k of None \<Rightarrow> [v] | Some vs \<Rightarrow> vs @ [v]))"
  by (induction gs) (auto simp: fun_eq_iff)

lemma mset_group_append:
  "mset (concat (map snd (group_append k v gs))) = add_mset v (mset (concat (map snd gs)))"
  by (induction gs) auto

lemma name_groups_snoc:
  "name_groups (items @ [x]) = group_append (name x) x (name_groups items)"
  by (simp add: name_groups_def)

lemma name_groups_keys: "distinct (map fst (name_groups items))"
proof (induction items rule: rev_induct)
  case Nil
  then show ?case by (simp add: name_groups_def)
next
  case (snoc x items)
  then show ?case by (simp add: name_groups_snoc fst_group_append)
qed

lemma name_groups_lookup:
  "map_of (name_groups items) k =
     (if k \<in> name ` set items then Some (filter (\<lambda>x. name x = k) items) else None)"
proof (induction items rule: rev_induct)
  case Nil
  then show ?case by (simp add: name_groups_def)
next
  case (snoc x items)
  have none: "filter (\<lambda>y. name y = k) items = []" if "k \<notin> name ` set items" for k
    using that by (auto simp: filter_empty_conv)
  show ?case
    using snoc none by (auto simp: name_groups_snoc map_of_group_append)
qed

lemma name_groups_member:
  "(k, vs) \<in> set (name_groups items) \<longleftrightarrow>
     k \<in> name ` set items \<and> vs = filter (\<lambda>x. name x = k) items"
proof -
  have "(k, vs) \<in> set (name_groups items) \<longleftrightarrow> map_of (name_groups items) k = Some vs"
    using name_groups_keys [of items] by simp
  then show ?thesis by (auto simp: name_groups_lookup)
qed

lemma mset_name_groups: "mset (concat (map snd (name_groups items))) = mset items"
proof (induction items rule: rev_induct)
  case Nil
  then show ?case by (simp add: name_groups_def)
next
  case (snoc x items)
  then show ?case by (simp add: name_groups_snoc mset_group_append)
qed

subsection \<open>Storing the names\<close>

lemma foldl_update:
  "foldl (\<lambda>result (p, u). result(p \<mapsto> u)) result xs = result ++ map_of (rev xs)"
proof (induction xs rule: rev_induct)
  case Nil
  then show ?case by simp
next
  case (snoc a xs)
  obtain p u where a: "a = (p, u)" by (cases a)
  show ?case using snoc a by (simp add: fun_eq_iff map_add_def)
qed

lemma assign_group_eq: "assign_group result g = result ++ map_of (rev (assignments g))"
proof -
  obtain nm members where g: "g = (nm, members)" by (cases g)
  show ?thesis
  proof (cases "length members = 1")
    case True
    then show ?thesis
      using g by (simp add: assign_group_def assignments_def fun_eq_iff map_add_def)
  next
    case False
    then show ?thesis
      using g foldl_update [of result "zip (map path members) (make_paths_unique (map path members))"]
      by (simp add: assign_group_def assignments_def Let_def)
  qed
qed

lemma foldl_assign_group:
  "foldl assign_group result gs = result ++ map_of (rev (concat (map assignments gs)))"
proof (induction gs rule: rev_induct)
  case Nil
  then show ?case by simp
next
  case (snoc g gs)
  have "foldl assign_group result (gs @ [g]) = assign_group (foldl assign_group result gs) g"
    by simp
  also have "\<dots> = (result ++ map_of (rev (concat (map assignments gs))))
      ++ map_of (rev (assignments g))"
    unfolding snoc by (rule assign_group_eq)
  also have "\<dots> = result ++ map_of (rev (concat (map assignments (gs @ [g]))))"
    by simp
  finally show ?case .
qed

lemma fst_assignments: "map fst (assignments (nm, members)) = map path members"
proof (cases "length members = 1")
  case True
  then obtain v where "members = [v]"
    by (cases members) auto
  then show ?thesis by (simp add: assignments_def)
next
  case False
  then show ?thesis
    by (simp add: assignments_def length_make_paths_unique)
qed

lemma fst_all_assignments:
  "map fst (concat (map assignments gs)) = map path (concat (map snd gs))"
proof (induction gs)
  case Nil
  then show ?case by simp
next
  case (Cons g gs)
  obtain nm members where g: "g = (nm, members)" by (cases g)
  show ?case using Cons g by (simp add: fst_assignments)
qed

lemma display_names_lookup:
  assumes "distinct (map path items)"
  shows "compute_unique_display_names items p = Some u
    \<longleftrightarrow> (\<exists>g \<in> set (name_groups items). (p, u) \<in> set (assignments g))"
proof -
  let ?al = "concat (map assignments (name_groups items))"
  have "mset (map path (concat (map snd (name_groups items)))) = mset (map path items)"
    using mset_name_groups [of items] by (metis mset_map)
  then have "distinct (map path (concat (map snd (name_groups items))))"
    using assms by (metis mset_eq_imp_distinct_iff)
  then have d: "distinct (map fst (rev ?al))"
    by (simp add: fst_all_assignments rev_map [symmetric])
  have "compute_unique_display_names items = map_of (rev ?al)"
    by (simp add: compute_unique_display_names_def foldl_assign_group)
  then have "compute_unique_display_names items p = Some u \<longleftrightarrow> (p, u) \<in> set (rev ?al)"
    using d by simp
  then show ?thesis by auto
qed

subsection \<open>The names in the dictionary\<close>

lemma path_name_last: "path_name p \<noteq> [] \<Longrightarrow> p \<noteq> [] \<and> path_name p = last p"
  by (auto simp: path_name_def split: if_splits)

lemma last_trailing: "1 \<le> d \<Longrightarrow> q \<noteq> [] \<Longrightarrow> last (trailing d q) = last q"
  by (simp add: trailing_def)

lemma trailing_one: "p \<noteq> [] \<Longrightarrow> join ''/'' (trailing 1 p) = last p"
proof -
  assume "p \<noteq> []"
  then have "drop (length p - 1) p = [last p]"
    by (metis append_butlast_last_id append_eq_conv_conj length_butlast)
  then show ?thesis by (simp add: trailing_def)
qed

lemma display_name_depth:
  assumes dist: "distinct (map path items)"
    and wf: "\<forall>x \<in> set items. wf_parts (path x)"
    and named: "\<forall>x \<in> set items. name x = path_name (path x) \<and> name x \<noteq> []"
    and i: "i < length items"
  shows "\<exists>d \<le> length (path (items ! i)). 1 \<le> d
    \<and> compute_unique_display_names items (path (items ! i))
        = Some (join ''/'' (trailing d (path (items ! i))))
    \<and> (\<forall>d'. 1 \<le> d' \<and> d' < d \<longrightarrow> shared_by_other (map path items) i d')
    \<and> (\<not> shared_by_other (map path items) i d \<or> d = length (path (items ! i)))"
proof -
  let ?x = "items ! i"
  let ?p = "path ?x"
  let ?k = "name ?x"
  let ?g = "filter (\<lambda>y. name y = ?k) items"
  let ?ps = "map path items"
  let ?gp = "map path ?g"
  let ?m = "compute_unique_display_names items"
  have leaf: "\<forall>y \<in> set items. path y \<noteq> [] \<and> name y = last (path y)"
    using named path_name_last by metis
  have xin: "?x \<in> set items" using i by simp
  have pne: "?p \<noteq> []" and kp: "?k = last ?p"
    using leaf xin by blast+
  have grp: "(?k, ?g) \<in> set (name_groups items)"
    using xin by (simp add: name_groups_member)
  have "?x \<in> set ?g" using xin by simp
  then obtain a where a: "a < length ?g" "?g ! a = ?x"
    by (metis in_set_conv_nth)
  have dg: "distinct ?gp"
    using dist by (rule distinct_map_filter)
  have gpa: "?gp ! a = ?p" using a by simp
  have ia: "a < length ?gp" using a(1) by simp
  have t1: "shared_by_other ?ps i d" if sh: "shared_by_other ?gp a d" for d
  proof -
    obtain b where b: "b < length ?gp" "b \<noteq> a" "d \<le> length (?gp ! b)"
      "trailing d (?gp ! b) = trailing d (?gp ! a)"
      using sh unfolding shared_by_other_def by blast
    have "?g ! b \<in> set items"
      using b(1) by (metis filter_is_subset length_map nth_mem subsetD)
    then obtain j where j: "j < length items" "items ! j = ?g ! b"
      by (metis in_set_conv_nth)
    have "?gp ! b \<noteq> ?gp ! a"
      using dg b(1,2) ia by (metis nth_eq_iff_index_eq)
    then have "?g ! b \<noteq> ?g ! a" using b(1) a(1) by auto
    then have "j \<noteq> i" using j(2) a(2) by auto
    moreover have "?ps ! j = ?gp ! b" using j b(1) by simp
    moreover have "?ps ! i = ?gp ! a" using i gpa by simp
    ultimately show ?thesis
      unfolding shared_by_other_def using j(1) b(3,4) by auto
  qed
  have t2: "shared_by_other ?gp a d"
    if d1: "1 \<le> d" and dl: "d \<le> length ?p" and sh: "shared_by_other ?ps i d" for d
  proof -
    obtain j where j: "j < length items" "j \<noteq> i" "d \<le> length (?ps ! j)"
      "trailing d (?ps ! j) = trailing d (?ps ! i)"
      using sh unfolding shared_by_other_def length_map by blast
    let ?y = "items ! j"
    have yin: "?y \<in> set items" using j(1) by simp
    have eq: "trailing d (path ?y) = trailing d ?p"
      using j(1,4) i by simp
    have "path ?y \<noteq> []" using leaf yin by blast
    then have "last (path ?y) = last ?p"
      using last_trailing [OF d1, of "path ?y"] last_trailing [OF d1 pne] eq by simp
    then have "name ?y = ?k"
      using leaf yin kp by simp
    then have "?y \<in> set ?g" using yin by simp
    then obtain b where b: "b < length ?g" "?g ! b = ?y"
      by (metis in_set_conv_nth)
    have "path ?y \<noteq> ?p"
      using dist i j(1,2) by (metis length_map nth_eq_iff_index_eq nth_map)
    then have "b \<noteq> a" using a(2) b(2) by auto
    moreover have "?gp ! b = path ?y" using b by simp
    ultimately show ?thesis
      unfolding shared_by_other_def using b(1) j(1,3) eq gpa by auto
  qed
  show ?thesis
  proof (cases "length ?g = 1")
    case True
    then have a0: "a = 0" using a(1) by simp
    have "(?p, ?k) \<in> set (assignments (?k, ?g))"
      using True a a0 by (simp add: assignments_def)
    then have "?m ?p = Some ?k"
      using display_names_lookup [OF dist] grp by blast
    then have nm: "?m ?p = Some (join ''/'' (trailing 1 ?p))"
      using kp trailing_one [OF pne] by simp
    have len: "1 \<le> length ?p" using pne by (simp add: Suc_le_eq)
    have "\<not> shared_by_other ?ps i 1"
    proof
      assume "shared_by_other ?ps i 1"
      then have "shared_by_other ?gp a 1" using t2 [of 1] len by simp
      then show False using True a0 by (auto simp: shared_by_other_def)
    qed
    then show ?thesis
      using nm len by (intro exI [of _ 1]) auto
  next
    case False
    have wfg: "\<forall>p \<in> set ?gp. wf_parts p" using wf by auto
    obtain d where d: "d \<le> length (?gp ! a)" "?gp ! a \<noteq> [] \<longrightarrow> 1 \<le> d"
      "make_paths_unique ?gp ! a = join ''/'' (trailing d (?gp ! a))"
      "\<forall>d'. 1 \<le> d' \<and> d' < d \<longrightarrow> shared_by_other ?gp a d'"
      "\<not> shared_by_other ?gp a d \<or> d = length (?gp ! a)"
      using unique_name_depth [OF wfg ia] by blast
    have d1: "1 \<le> d" and dl: "d \<le> length ?p"
      using d(1,2) gpa pne by simp_all
    have "(?gp ! a, make_paths_unique ?gp ! a) \<in> set (zip ?gp (make_paths_unique ?gp))"
      using ia by (metis in_set_zip length_make_paths_unique fst_conv snd_conv)
    then have "(?p, join ''/'' (trailing d ?p)) \<in> set (assignments (?k, ?g))"
      using False d(3) gpa by (simp add: assignments_def)
    then have nm: "?m ?p = Some (join ''/'' (trailing d ?p))"
      using display_names_lookup [OF dist] grp by blast
    have below: "\<forall>d'. 1 \<le> d' \<and> d' < d \<longrightarrow> shared_by_other ?ps i d'"
      using d(4) t1 by blast
    have top: "\<not> shared_by_other ?ps i d \<or> d = length ?p"
      using d(5) t2 [OF d1 dl] gpa by auto
    show ?thesis
      using dl d1 nm below top by (intro exI [of _ d]) auto
  qed
qed

lemma display_names_dom:
  assumes dist: "distinct (map path items)"
    and wf: "\<forall>x \<in> set items. wf_parts (path x)"
    and named: "\<forall>x \<in> set items. name x = path_name (path x) \<and> name x \<noteq> []"
  shows "dom (compute_unique_display_names items) = path ` set items"
proof
  show "dom (compute_unique_display_names items) \<subseteq> path ` set items"
  proof
    fix p assume "p \<in> dom (compute_unique_display_names items)"
    then obtain u where "compute_unique_display_names items p = Some u" by blast
    then obtain g where g: "g \<in> set (name_groups items)" "(p, u) \<in> set (assignments g)"
      using display_names_lookup [OF dist] by blast
    obtain k vs where kv: "g = (k, vs)" by (cases g)
    have "p \<in> set (map fst (assignments (k, vs)))"
      using g(2) kv by force
    then have "p \<in> path ` set vs"
      by (simp add: fst_assignments)
    moreover have "set vs \<subseteq> set items"
      using g(1) kv by (auto simp: name_groups_member)
    ultimately show "p \<in> path ` set items" by blast
  qed
  show "path ` set items \<subseteq> dom (compute_unique_display_names items)"
  proof
    fix p assume "p \<in> path ` set items"
    then obtain i where i: "i < length items" "p = path (items ! i)"
      by (metis imageE in_set_conv_nth)
    then show "p \<in> dom (compute_unique_display_names items)"
      using display_name_depth [OF dist wf named i(1)] by auto
  qed
qed

text \<open>
  C7. For distinct paths (given by their parts), \<open>_make_paths_unique\<close> returns one name
  per path and no name twice. The name of a path is its last \<open>d\<close> segments joined by
  slashes, with \<open>d\<close> at least one for a path that has segments. No smaller number of
  trailing segments tells the path from the others: for each, another path ends in the
  same segments. And \<open>d\<close> segments do tell it from the others, except when even the whole
  path is the ending of another one, where the whole path is the name; that does not
  happen among absolute paths. For items with distinct paths that carry the name of their
  path, the dictionary of \<open>compute_unique_display_names\<close> gives every path a name, gives
  no name twice, and each name is such a shortest ending, judged among all the paths.
\<close>

theorem display_names_unique_and_minimal:
  assumes "distinct paths" and "\<forall>p \<in> set paths. wf_parts p"
  shows "length (make_paths_unique paths) = length paths
    \<and> distinct (make_paths_unique paths)
    \<and> (\<forall>i < length paths. \<exists>d \<le> length (paths ! i).
          (paths ! i \<noteq> [] \<longrightarrow> 1 \<le> d)
        \<and> make_paths_unique paths ! i = join ''/'' (trailing d (paths ! i))
        \<and> (\<forall>d'. 1 \<le> d' \<and> d' < d \<longrightarrow> shared_by_other paths i d')
        \<and> (\<not> shared_by_other paths i d \<or> d = length (paths ! i))
        \<and> ((\<forall>p \<in> set paths. p \<noteq> [] \<and> root (hd p)) \<longrightarrow> \<not> shared_by_other paths i d))
    \<and> (map path items = paths
         \<and> (\<forall>x \<in> set items. name x = path_name (path x) \<and> name x \<noteq> []) \<longrightarrow>
           dom (compute_unique_display_names items) = set paths
         \<and> inj_on (compute_unique_display_names items) (set paths)
         \<and> (\<forall>i < length paths. \<exists>d \<le> length (paths ! i). 1 \<le> d
               \<and> compute_unique_display_names items (paths ! i)
                   = Some (join ''/'' (trailing d (paths ! i)))
               \<and> (\<forall>d'. 1 \<le> d' \<and> d' < d \<longrightarrow> shared_by_other paths i d')
               \<and> (\<not> shared_by_other paths i d \<or> d = length (paths ! i))
               \<and> ((\<forall>p \<in> set paths. p \<noteq> [] \<and> root (hd p))
                    \<longrightarrow> \<not> shared_by_other paths i d)))"
proof -
  have len: "length (make_paths_unique paths) = length paths"
    by (rule length_make_paths_unique)
  have inj: "distinct (make_paths_unique paths)"
    unfolding distinct_conv_nth length_make_paths_unique
    using names_differ [OF assms] by blast
  have each: "\<forall>i < length paths. \<exists>d \<le> length (paths ! i).
          (paths ! i \<noteq> [] \<longrightarrow> 1 \<le> d)
        \<and> make_paths_unique paths ! i = join ''/'' (trailing d (paths ! i))
        \<and> (\<forall>d'. 1 \<le> d' \<and> d' < d \<longrightarrow> shared_by_other paths i d')
        \<and> (\<not> shared_by_other paths i d \<or> d = length (paths ! i))
        \<and> ((\<forall>p \<in> set paths. p \<noteq> [] \<and> root (hd p)) \<longrightarrow> \<not> shared_by_other paths i d)"
  proof (intro allI impI)
    fix i assume i: "i < length paths"
    obtain d where d: "d \<le> length (paths ! i)" "paths ! i \<noteq> [] \<longrightarrow> 1 \<le> d"
      "make_paths_unique paths ! i = join ''/'' (trailing d (paths ! i))"
      "\<forall>d'. 1 \<le> d' \<and> d' < d \<longrightarrow> shared_by_other paths i d'"
      "\<not> shared_by_other paths i d \<or> d = length (paths ! i)"
      using unique_name_depth [OF assms(2) i] by blast
    have "(\<forall>p \<in> set paths. p \<noteq> [] \<and> root (hd p)) \<longrightarrow> \<not> shared_by_other paths i d"
      using absolute_not_shared [OF assms _ i] d(5) by auto
    then show "\<exists>d \<le> length (paths ! i).
          (paths ! i \<noteq> [] \<longrightarrow> 1 \<le> d)
        \<and> make_paths_unique paths ! i = join ''/'' (trailing d (paths ! i))
        \<and> (\<forall>d'. 1 \<le> d' \<and> d' < d \<longrightarrow> shared_by_other paths i d')
        \<and> (\<not> shared_by_other paths i d \<or> d = length (paths ! i))
        \<and> ((\<forall>p \<in> set paths. p \<noteq> [] \<and> root (hd p)) \<longrightarrow> \<not> shared_by_other paths i d)"
      using d by blast
  qed
  have dict: "dom (compute_unique_display_names items) = set paths
         \<and> inj_on (compute_unique_display_names items) (set paths)
         \<and> (\<forall>i < length paths. \<exists>d \<le> length (paths ! i). 1 \<le> d
               \<and> compute_unique_display_names items (paths ! i)
                   = Some (join ''/'' (trailing d (paths ! i)))
               \<and> (\<forall>d'. 1 \<le> d' \<and> d' < d \<longrightarrow> shared_by_other paths i d')
               \<and> (\<not> shared_by_other paths i d \<or> d = length (paths ! i))
               \<and> ((\<forall>p \<in> set paths. p \<noteq> [] \<and> root (hd p))
                    \<longrightarrow> \<not> shared_by_other paths i d))"
    if ps: "map path items = paths"
      and named: "\<forall>x \<in> set items. name x = path_name (path x) \<and> name x \<noteq> []"
  proof -
    let ?m = "compute_unique_display_names items"
    have dist: "distinct (map path items)" using assms(1) ps by simp
    have wf: "\<forall>x \<in> set items. wf_parts (path x)" using assms(2) ps by auto
    have li: "length items = length paths" using ps by auto
    have depth: "\<exists>d \<le> length (paths ! i). 1 \<le> d
        \<and> ?m (paths ! i) = Some (join ''/'' (trailing d (paths ! i)))
        \<and> (\<forall>d'. 1 \<le> d' \<and> d' < d \<longrightarrow> shared_by_other paths i d')
        \<and> (\<not> shared_by_other paths i d \<or> d = length (paths ! i))"
      if i: "i < length paths" for i
    proof -
      have "i < length items" using i li by simp
      moreover have "path (items ! i) = paths ! i" using i li ps by (metis nth_map)
      ultimately show ?thesis
        using display_name_depth [OF dist wf named, of i] ps by simp
    qed
    have dm: "dom ?m = set paths"
      using display_names_dom [OF dist wf named] ps by (metis set_map)
    have im: "inj_on ?m (set paths)"
    proof (rule inj_onI)
      fix p q assume p: "p \<in> set paths" and q: "q \<in> set paths" and eq: "?m p = ?m q"
      obtain i j where i: "i < length paths" "paths ! i = p" and j: "j < length paths" "paths ! j = q"
        using p q by (metis in_set_conv_nth)
      show "p = q"
      proof (rule ccontr)
        assume "p \<noteq> q"
        then have ij: "i \<noteq> j" using i j by auto
        obtain d where d: "d \<le> length (paths ! i)"
          "?m (paths ! i) = Some (join ''/'' (trailing d (paths ! i)))"
          "\<not> shared_by_other paths i d \<or> d = length (paths ! i)"
          using depth [OF i(1)] by blast
        obtain e where e: "e \<le> length (paths ! j)"
          "?m (paths ! j) = Some (join ''/'' (trailing e (paths ! j)))"
          "\<not> shared_by_other paths j e \<or> e = length (paths ! j)"
          using depth [OF j(1)] by blast
        have "join ''/'' (trailing d (paths ! i)) \<noteq> join ''/'' (trailing e (paths ! j))"
          using depth_names_differ [OF assms i(1) j(1) ij d(1,3) e(1,3)] .
        then show False using eq d(2) e(2) i(2) j(2) by simp
      qed
    qed
    have all: "\<forall>i < length paths. \<exists>d \<le> length (paths ! i). 1 \<le> d
               \<and> ?m (paths ! i) = Some (join ''/'' (trailing d (paths ! i)))
               \<and> (\<forall>d'. 1 \<le> d' \<and> d' < d \<longrightarrow> shared_by_other paths i d')
               \<and> (\<not> shared_by_other paths i d \<or> d = length (paths ! i))
               \<and> ((\<forall>p \<in> set paths. p \<noteq> [] \<and> root (hd p))
                    \<longrightarrow> \<not> shared_by_other paths i d)"
    proof (intro allI impI)
      fix i assume i: "i < length paths"
      obtain d where d: "d \<le> length (paths ! i)" "1 \<le> d"
        "?m (paths ! i) = Some (join ''/'' (trailing d (paths ! i)))"
        "\<forall>d'. 1 \<le> d' \<and> d' < d \<longrightarrow> shared_by_other paths i d'"
        "\<not> shared_by_other paths i d \<or> d = length (paths ! i)"
        using depth [OF i] by blast
      have "(\<forall>p \<in> set paths. p \<noteq> [] \<and> root (hd p)) \<longrightarrow> \<not> shared_by_other paths i d"
        using absolute_not_shared [OF assms _ i] d(5) by auto
      then show "\<exists>d \<le> length (paths ! i). 1 \<le> d
               \<and> ?m (paths ! i) = Some (join ''/'' (trailing d (paths ! i)))
               \<and> (\<forall>d'. 1 \<le> d' \<and> d' < d \<longrightarrow> shared_by_other paths i d')
               \<and> (\<not> shared_by_other paths i d \<or> d = length (paths ! i))
               \<and> ((\<forall>p \<in> set paths. p \<noteq> [] \<and> root (hd p))
                    \<longrightarrow> \<not> shared_by_other paths i d)"
        using d by blast
    qed
    show ?thesis using dm im all by blast
  qed
  show ?thesis using len inj each dict by blast
qed

theorem display_names_unique_and_minimal_witness:
  "make_paths_unique sample_paths = [''w/a/x'', ''b/x'', ''v/a/x'']
   \<and> distinct (make_paths_unique sample_paths)
   \<and> (\<exists>d \<le> length (sample_paths ! 0).
        make_paths_unique sample_paths ! 0 = join ''/'' (trailing d (sample_paths ! 0))
      \<and> (\<forall>d'. 1 \<le> d' \<and> d' < d \<longrightarrow> shared_by_other sample_paths 0 d')
      \<and> \<not> shared_by_other sample_paths 0 d)
   \<and> map (compute_unique_display_names sample_items) (map path sample_items)
       = [Some ''y'', Some ''w/a/x'', Some ''b/x'', Some ''v/a/x'']
   \<and> inj_on (compute_unique_display_names sample_items) (set (map path sample_items))"
proof -
  have names: "make_paths_unique sample_paths = [''w/a/x'', ''b/x'', ''v/a/x'']"
    by code_simp
  have d: "distinct sample_paths"
    by (simp add: sample_paths_def)
  have wf: "\<forall>p \<in> set sample_paths. wf_parts p"
    by (simp add: sample_paths_def wf_parts_def root_def segment_def)
  have ab: "\<forall>p \<in> set sample_paths. p \<noteq> [] \<and> root (hd p)"
    by (simp add: sample_paths_def root_def)
  have len: "0 < length sample_paths"
    by (simp add: sample_paths_def)
  have dict: "map (compute_unique_display_names sample_items) (map path sample_items)
       = [Some ''y'', Some ''w/a/x'', Some ''b/x'', Some ''v/a/x'']"
    by code_simp
  have d': "distinct (map path sample_items)"
    by (simp add: sample_items_def sample_paths_def GitRepository_init_def comp_def)
  have wf': "\<forall>p \<in> set (map path sample_items). wf_parts p"
    by (simp add: sample_items_def sample_paths_def GitRepository_init_def wf_parts_def
        root_def segment_def)
  have named: "map path sample_items = map path sample_items
      \<and> (\<forall>x \<in> set sample_items. name x = path_name (path x) \<and> name x \<noteq> [])"
    by (simp add: sample_items_def sample_paths_def GitRepository_init_def path_name_def)
  have first: "distinct (make_paths_unique sample_paths)
     \<and> (\<exists>d \<le> length (sample_paths ! 0).
        make_paths_unique sample_paths ! 0 = join ''/'' (trailing d (sample_paths ! 0))
      \<and> (\<forall>d'. 1 \<le> d' \<and> d' < d \<longrightarrow> shared_by_other sample_paths 0 d')
      \<and> \<not> shared_by_other sample_paths 0 d)"
    using display_names_unique_and_minimal [OF d wf, of sample_items] ab len by blast
  have second: "inj_on (compute_unique_display_names sample_items) (set (map path sample_items))"
    using display_names_unique_and_minimal [OF d' wf', of sample_items] named by blast
  show ?thesis using names first dict second by blast
qed

end
